theory Spec2Isabelle
  imports Main "HOL-Library.Word" "HOL-Library.Monad_Syntax"
begin

unbundle bit_operations_syntax

section \<open>Extendible hash table (container/hash/extendible\_hash\_table.cpp)\<close>

text \<open>
  A bucket holds its capacity \<open>b_size\<close>, its local depth \<open>b_depth\<close> and the list of its
  key/value pairs. The directory \<open>dir\<close> is a vector of shared pointers: several slots
  may reference one bucket, and \<open>Insert\<close> compares pointers, so the model keeps an
  explicit store \<open>heap\<close> from addresses to buckets; \<open>std::make_shared\<close> takes the next
  unused address \<open>next_addr\<close>. Address 0 is the null pointer that \<open>resize\<close> fills in.
  The depths and the bucket count are C++ \<open>int\<close>s that only grow; they are natural
  numbers here (a directory of \<open>2^31\<close> pointers is outside the model).
  \<open>std::hash<K>\<close> is the parameter \<open>h\<close>.
\<close>

record ('k, 'v) Bucket =
  b_size :: nat
  b_depth :: nat
  b_list :: "('k \<times> 'v) list"

record ('k, 'v) ExtendibleHashTable =
  global_depth :: nat
  bucket_size :: nat
  num_buckets :: nat
  dir :: "nat list"
  heap :: "nat \<Rightarrow> ('k, 'v) Bucket"
  next_addr :: nat

definition Bucket_new :: "nat \<Rightarrow> nat \<Rightarrow> ('k, 'v) Bucket" where
  "Bucket_new array_size depth = \<lparr>b_size = array_size, b_depth = depth, b_list = []\<rparr>"

text \<open>
  Modelled from the spec: \<open>Bucket::IsFull\<close>, \<open>GetDepth\<close> and \<open>GetItems\<close> are defined inline
  in extendible\_hash\_table.h, which is not among the sources; a bucket "has a local
  depth, a capacity, and an ordered list of key-value pairs" and is full when the list
  has reached the capacity.
\<close>

definition IsFull :: "('k, 'v) Bucket \<Rightarrow> bool" where
  "IsFull b = (length (b_list b) = b_size b)"

text \<open>The constructor: one bucket of depth 0, global depth 0, one bucket counted.\<close>

definition ExtendibleHashTable_new :: "nat \<Rightarrow> ('k, 'v) ExtendibleHashTable" where
  "ExtendibleHashTable_new bsz =
     \<lparr>global_depth = 0, bucket_size = bsz, num_buckets = 1, dir = [1],
      heap = (\<lambda>_. Bucket_new bsz 0), next_addr = 2\<rparr>"

definition IndexOf :: "('k \<Rightarrow> nat) \<Rightarrow> ('k, 'v) ExtendibleHashTable \<Rightarrow> 'k \<Rightarrow> nat" where
  "IndexOf h t key = (let msk = push_bit (global_depth t) (1::nat) - 1 in h key AND msk)"

definition GetGlobalDepth :: "('k, 'v) ExtendibleHashTable \<Rightarrow> nat" where
  "GetGlobalDepth t = global_depth t"

definition GetLocalDepth :: "('k, 'v) ExtendibleHashTable \<Rightarrow> nat \<Rightarrow> nat" where
  "GetLocalDepth t dir_index = b_depth (heap t (dir t ! dir_index))"


subsection \<open>Bucket operations\<close>

fun Bucket_Find_list :: "'k \<Rightarrow> ('k \<times> 'v) list \<Rightarrow> 'v option" where
  "Bucket_Find_list key [] = None"
| "Bucket_Find_list key (it # rest) =
     (if fst it = key then Some (snd it) else Bucket_Find_list key rest)"

definition Bucket_Find :: "('k, 'v) Bucket \<Rightarrow> 'k \<Rightarrow> 'v option" where
  "Bucket_Find b key = Bucket_Find_list key (b_list b)"

text \<open>\<open>std::find_if\<close> followed by \<open>erase\<close>: the first pair with the key goes.\<close>

fun erase_first :: "'k \<Rightarrow> ('k \<times> 'v) list \<Rightarrow> ('k \<times> 'v) list" where
  "erase_first key [] = []"
| "erase_first key (it # rest) = (if fst it = key then rest else it # erase_first key rest)"

definition Bucket_Remove :: "('k, 'v) Bucket \<Rightarrow> 'k \<Rightarrow> bool \<times> ('k, 'v) Bucket" where
  "Bucket_Remove b key =
     (if b_list b = [] then (False, b)
      else if key \<notin> fst ` set (b_list b) then (False, b)
      else (True, b\<lparr>b_list := erase_first key (b_list b)\<rparr>))"

definition Bucket_Insert :: "('k, 'v) Bucket \<Rightarrow> 'k \<Rightarrow> 'v \<Rightarrow> bool \<times> ('k, 'v) Bucket" where
  "Bucket_Insert b key val =
     (if IsFull b then (False, b)
      else if key \<in> fst ` set (b_list b) then (False, b)
      else (True, b\<lparr>b_list := b_list b @ [(key, val)]\<rparr>))"

subsection \<open>Table operations\<close>

definition ExtendibleHashTable_Find ::
  "('k \<Rightarrow> nat) \<Rightarrow> ('k, 'v) ExtendibleHashTable \<Rightarrow> 'k \<Rightarrow> 'v option" where
  "ExtendibleHashTable_Find h t key =
     (let index = IndexOf h t key in Bucket_Find (heap t (dir t ! index)) key)"

definition ExtendibleHashTable_Remove ::
  "('k \<Rightarrow> nat) \<Rightarrow> ('k, 'v) ExtendibleHashTable \<Rightarrow> 'k \<Rightarrow> bool \<times> ('k, 'v) ExtendibleHashTable" where
  "ExtendibleHashTable_Remove h t key =
     (let index = IndexOf h t key;
          a = dir t ! index;
          (r, b) = Bucket_Remove (heap t a) key
      in (r, t\<lparr>heap := (heap t)(a := b)\<rparr>))"

text \<open>
  The directory doubles: \<open>resize(capacity << 1)\<close> appends null pointers, then the loop
  copies slot \<open>inx\<close> to slot \<open>capacity + inx\<close>.
\<close>

definition double_dir :: "nat list \<Rightarrow> nat list" where
  "double_dir d =
     (let capacity = length d
      in fold (\<lambda>inx d'. d'[capacity + inx := d' ! inx]) [0..<capacity]
           (d @ replicate capacity 0))"

text \<open>The items of the target bucket go to \<open>bucket_1\<close> or \<open>bucket_0\<close> by the mask bit of the hash.\<close>

fun distribute ::
  "('k \<Rightarrow> nat) \<Rightarrow> nat \<Rightarrow> ('k \<times> 'v) list \<Rightarrow> ('k, 'v) Bucket \<times> ('k, 'v) Bucket
     \<Rightarrow> ('k, 'v) Bucket \<times> ('k, 'v) Bucket" where
  "distribute h msk [] (bucket_0, bucket_1) = (bucket_0, bucket_1)"
| "distribute h msk (item # rest) (bucket_0, bucket_1) =
     (let hash_key = h (fst item)
      in if hash_key AND msk \<noteq> 0
         then distribute h msk rest (bucket_0, snd (Bucket_Insert bucket_1 (fst item) (snd item)))
         else distribute h msk rest (snd (Bucket_Insert bucket_0 (fst item) (snd item)), bucket_1))"

text \<open>Every slot that points to the target bucket is pointed to one of the two new buckets.\<close>

definition redirect :: "nat list \<Rightarrow> nat \<Rightarrow> nat \<Rightarrow> nat \<Rightarrow> nat \<Rightarrow> nat list" where
  "redirect d target_bucket msk a0 a1 =
     fold (\<lambda>i d'. if d' ! i = target_bucket
                   then (if i AND msk \<noteq> 0 then d'[i := a1] else d'[i := a0])
                   else d')
          [0..<length d] d"

text \<open>One pass through the body of the \<open>while\<close> loop of \<open>Insert\<close>.\<close>

definition split_bucket ::
  "('k \<Rightarrow> nat) \<Rightarrow> 'k \<Rightarrow> ('k, 'v) ExtendibleHashTable \<Rightarrow> ('k, 'v) ExtendibleHashTable" where
  "split_bucket h key t =
     (let index = IndexOf h t key;
          target_bucket = dir t ! index;
          bucket_localdepth = b_depth (heap t target_bucket);
          t1 = (if global_depth t = bucket_localdepth
                then t\<lparr>dir := double_dir (dir t), global_depth := global_depth t + 1\<rparr>
                else t);
          msk = push_bit bucket_localdepth (1::nat);
          a0 = next_addr t1;
          a1 = next_addr t1 + 1;
          (bucket_0, bucket_1) =
             distribute h msk (b_list (heap t1 target_bucket))
               (Bucket_new (bucket_size t1) (bucket_localdepth + 1),
                Bucket_new (bucket_size t1) (bucket_localdepth + 1));
          n = (if b_list bucket_1 \<noteq> [] \<and> b_list bucket_0 \<noteq> []
               then num_buckets t1 + 1 else num_buckets t1)
      in t1\<lparr>num_buckets := n,
            dir := redirect (dir t1) target_bucket msk a0 a1,
            heap := (heap t1)(a0 := bucket_0, a1 := bucket_1),
            next_addr := next_addr t1 + 2\<rparr>)"

text \<open>
  The \<open>while\<close> loop of \<open>Insert\<close> runs as long as the bucket of the key is full. Nothing
  bounds the number of passes, so the loop is a partial function: \<open>None\<close> is a call that
  does not return.
\<close>

partial_function (option) split_while_full ::
  "('k \<Rightarrow> nat) \<Rightarrow> 'k \<Rightarrow> ('k, 'v) ExtendibleHashTable \<Rightarrow> ('k, 'v) ExtendibleHashTable option" where
  "split_while_full h key t =
     (if IsFull (heap t (dir t ! IndexOf h t key))
      then split_while_full h key (split_bucket h key t)
      else Some t)"

text \<open>After the loop: overwrite the value of the first pair with the key, or append the pair.\<close>

fun update_first :: "'k \<Rightarrow> 'v \<Rightarrow> ('k \<times> 'v) list \<Rightarrow> ('k \<times> 'v) list" where
  "update_first key val [] = []"
| "update_first key val (it # rest) =
     (if fst it = key then (fst it, val) # rest else it # update_first key val rest)"

definition upsert ::
  "('k \<Rightarrow> nat) \<Rightarrow> 'k \<Rightarrow> 'v \<Rightarrow> ('k, 'v) ExtendibleHashTable \<Rightarrow> ('k, 'v) ExtendibleHashTable" where
  "upsert h key val t =
     (let index = IndexOf h t key;
          target_bucket = dir t ! index;
          b = heap t target_bucket
      in if key \<in> fst ` set (b_list b)
         then t\<lparr>heap := (heap t)(target_bucket := b\<lparr>b_list := update_first key val (b_list b)\<rparr>)\<rparr>
         else t\<lparr>heap := (heap t)(target_bucket := snd (Bucket_Insert b key val))\<rparr>)"

definition ExtendibleHashTable_Insert ::
  "('k \<Rightarrow> nat) \<Rightarrow> ('k, 'v) ExtendibleHashTable \<Rightarrow> 'k \<Rightarrow> 'v \<Rightarrow> ('k, 'v) ExtendibleHashTable option" where
  "ExtendibleHashTable_Insert h t key val =
     (case split_while_full h key t of
        None \<Rightarrow> None
      | Some t' \<Rightarrow> Some (upsert h key val t'))"


declare split_while_full.simps [code]
definition dir_inv :: "('k, 'v) ExtendibleHashTable \<Rightarrow> bool" where
  "dir_inv t =
     (length (dir t) = 2 ^ global_depth t \<and>
      (\<forall>i \<in> set [0..<length (dir t)].
         dir t ! i < next_addr t \<and>
         b_depth (heap t (dir t ! i)) \<le> global_depth t \<and>
         (\<forall>j \<in> set [0..<length (dir t)].
            (dir t ! j = dir t ! i) =
            (j mod 2 ^ b_depth (heap t (dir t ! i)) = i mod 2 ^ b_depth (heap t (dir t ! i))))))"

definition items_inv :: "('k \<Rightarrow> nat) \<Rightarrow> ('k, 'v) ExtendibleHashTable \<Rightarrow> bool" where
  "items_inv h t =
     (\<forall>i \<in> set [0..<length (dir t)].
        b_size (heap t (dir t ! i)) = bucket_size t \<and>
        length (b_list (heap t (dir t ! i))) \<le> bucket_size t \<and>
        distinct (map fst (b_list (heap t (dir t ! i)))) \<and>
        (\<forall>it \<in> set (b_list (heap t (dir t ! i))).
           h (fst it) mod 2 ^ b_depth (heap t (dir t ! i)) = i mod 2 ^ b_depth (heap t (dir t ! i))))"

text \<open>
  The two predicates above are the class invariant of the table. \<open>dir_inv\<close>: the directory
  has \<open>2 ^ global_depth\<close> slots, every slot holds an allocated bucket whose local depth is
  at most the global depth, and two slots hold the same bucket exactly when their indices
  agree on the low local-depth bits. \<open>items_inv\<close>: every bucket has the table's capacity,
  holds at most that many pairs with distinct keys, and the hash of each key agrees with
  the index of every slot of the bucket on the low local-depth bits.
\<close>

subsection \<open>Sequences of operations\<close>

datatype ('k, 'v) table_op = Insert_op 'k 'v | Find_op 'k | Remove_op 'k

fun apply_op ::
  "('k \<Rightarrow> nat) \<Rightarrow> ('k, 'v) ExtendibleHashTable \<Rightarrow> ('k, 'v) table_op
     \<Rightarrow> ('k, 'v) ExtendibleHashTable option" where
  "apply_op h t (Insert_op key val) = ExtendibleHashTable_Insert h t key val"
| "apply_op h t (Find_op key) = Some t"
| "apply_op h t (Remove_op key) = Some (snd (ExtendibleHashTable_Remove h t key))"

fun run_ops ::
  "('k \<Rightarrow> nat) \<Rightarrow> ('k, 'v) ExtendibleHashTable \<Rightarrow> ('k, 'v) table_op list
     \<Rightarrow> ('k, 'v) ExtendibleHashTable option" where
  "run_ops h t [] = Some t"
| "run_ops h t (x # xs) = (case apply_op h t x of None \<Rightarrow> None | Some t' \<Rightarrow> run_ops h t' xs)"

text \<open>
  \<open>std::hash<int>\<close> belongs to the C++ library; in libstdc++ and libc++ it returns its
  argument converted to \<open>size_t\<close>.
\<close>

definition hash_int :: "int \<Rightarrow> nat" where
  "hash_int key = nat (key mod 2 ^ 64)"

section \<open>LRU-K replacer (buffer/lru\_k\_replacer.cpp)\<close>

text \<open>
  The members of the class are declared in lru\_k\_replacer.h, which is not among the
  sources; the model takes them as the code uses them: \<open>replacer_size_\<close>, \<open>k_\<close> and
  \<open>curr_size_\<close> are \<open>size_t\<close>, \<open>access_count_\<close> and \<open>is_evictable_\<close> are maps from frame ids
  created on first use with 0 and \<open>false\<close>, \<open>history_list_\<close> and \<open>cache_list_\<close> are lists
  of frame ids with the most recent entry at the front. \<open>history_map_\<close> and \<open>cache_map_\<close>
  hold, for each listed frame, the iterator of its list node; the model keeps the lists
  only: a frame is in a map iff it is on the list, and erasing through the stored
  iterator removes the frame's node. A frame id is a 32-bit \<open>int\<close>.
  \<open>curr_size_--\<close> on 0 wraps around, as \<open>size_t\<close> does.
\<close>

datatype error = std_exception | no_return

record LRUKReplacer =
  replacer_size :: nat
  replacer_k :: nat
  curr_size :: nat
  access_count :: "int \<Rightarrow> nat"
  is_evictable :: "int \<Rightarrow> bool"
  history_list :: "int list"
  cache_list :: "int list"

definition LRUKReplacer_new :: "nat \<Rightarrow> nat \<Rightarrow> LRUKReplacer" where
  "LRUKReplacer_new num_frames k =
     \<lparr>replacer_size = num_frames, replacer_k = k, curr_size = 0,
      access_count = (\<lambda>_. 0), is_evictable = (\<lambda>_. False),
      history_list = [], cache_list = []\<rparr>"

definition size_t_decrement :: "nat \<Rightarrow> nat" where
  "size_t_decrement n = (if n = 0 then 2 ^ 64 - 1 else n - 1)"

text \<open>One \<open>for\<close> loop of \<open>Evict\<close>: the first evictable frame of the frames in the order given.\<close>

fun first_evictable :: "(int \<Rightarrow> bool) \<Rightarrow> int list \<Rightarrow> int option" where
  "first_evictable ev [] = None"
| "first_evictable ev (it # rest) = (if ev it then Some it else first_evictable ev rest)"

definition LRUKReplacer_Evict :: "LRUKReplacer \<Rightarrow> int option \<times> LRUKReplacer" where
  "LRUKReplacer_Evict r =
     (if curr_size r = 0 then (None, r)
      else case first_evictable (is_evictable r) (rev (history_list r)) of
        Some frame_id \<Rightarrow>
          (Some frame_id,
           r\<lparr>access_count := (access_count r)(frame_id := 0),
             history_list := remove1 frame_id (history_list r),
             is_evictable := (is_evictable r)(frame_id := False),
             curr_size := size_t_decrement (curr_size r)\<rparr>)
      | None \<Rightarrow>
          (case first_evictable (is_evictable r) (rev (cache_list r)) of
             Some frame_id \<Rightarrow>
               (Some frame_id,
                r\<lparr>access_count := (access_count r)(frame_id := 0),
                  cache_list := remove1 frame_id (cache_list r),
                  is_evictable := (is_evictable r)(frame_id := False),
                  curr_size := size_t_decrement (curr_size r)\<rparr>)
           | None \<Rightarrow> (None, r)))"

definition LRUKReplacer_RecordAccess :: "LRUKReplacer \<Rightarrow> int \<Rightarrow> error + LRUKReplacer" where
  "LRUKReplacer_RecordAccess r frame_id =
     (if frame_id > int (replacer_size r) then Inl std_exception
      else
        let r1 = r\<lparr>access_count := (access_count r)(frame_id := access_count r frame_id + 1)\<rparr>
        in if access_count r1 frame_id = replacer_k r1
           then Inr (r1\<lparr>history_list :=
                           (if frame_id \<in> set (history_list r1)
                            then remove1 frame_id (history_list r1) else history_list r1),
                         cache_list := frame_id # cache_list r1\<rparr>)
           else if access_count r1 frame_id > replacer_k r1
           then Inr (r1\<lparr>cache_list :=
                           frame_id # (if frame_id \<in> set (cache_list r1)
                                       then remove1 frame_id (cache_list r1) else cache_list r1)\<rparr>)
           else if frame_id \<notin> set (history_list r1)
           then Inr (r1\<lparr>history_list := frame_id # history_list r1\<rparr>)
           else Inr r1)"

definition LRUKReplacer_SetEvictable ::
  "LRUKReplacer \<Rightarrow> int \<Rightarrow> bool \<Rightarrow> error + LRUKReplacer" where
  "LRUKReplacer_SetEvictable r frame_id set_evictable =
     (if frame_id > int (replacer_size r) then Inl std_exception
      else if access_count r frame_id = 0 then Inr r
      else
        let r1 = (if \<not> is_evictable r frame_id \<and> set_evictable
                  then r\<lparr>curr_size := curr_size r + 1\<rparr> else r);
            r2 = (if is_evictable r1 frame_id \<and> \<not> set_evictable
                  then r1\<lparr>curr_size := size_t_decrement (curr_size r1)\<rparr> else r1)
        in Inr (r2\<lparr>is_evictable := (is_evictable r2)(frame_id := set_evictable)\<rparr>))"

definition LRUKReplacer_Remove :: "LRUKReplacer \<Rightarrow> int \<Rightarrow> error + LRUKReplacer" where
  "LRUKReplacer_Remove r frame_id =
     (if frame_id > int (replacer_size r) then Inl std_exception
      else if access_count r frame_id = 0 then Inr r
      else
        let r1 = (if access_count r frame_id \<ge> replacer_k r
                  then r\<lparr>cache_list := remove1 frame_id (cache_list r)\<rparr>
                  else r\<lparr>history_list := remove1 frame_id (history_list r)\<rparr>)
        in Inr (r1\<lparr>curr_size := size_t_decrement (curr_size r1),
                    access_count := (access_count r1)(frame_id := 0),
                    is_evictable := (is_evictable r1)(frame_id := False)\<rparr>))"

definition LRUKReplacer_Size :: "LRUKReplacer \<Rightarrow> nat" where
  "LRUKReplacer_Size r = curr_size r"

text \<open>
  The invariant of the replacer: no frame is listed twice; the frames of the history
  list have been accessed fewer than \<open>k\<close> times, those of the cache list at least \<open>k\<close>
  times; a frame is listed iff its access count is not 0; only listed frames are
  evictable; and \<open>curr_size\<close> counts the listed evictable frames.
\<close>

definition replacer_inv :: "LRUKReplacer \<Rightarrow> bool" where
  "replacer_inv r =
     (distinct (history_list r @ cache_list r) \<and>
      (\<forall>f \<in> set (history_list r). 0 < access_count r f \<and> access_count r f < replacer_k r) \<and>
      (\<forall>f \<in> set (cache_list r). 0 < access_count r f \<and> replacer_k r \<le> access_count r f) \<and>
      (\<forall>f. 0 < access_count r f \<longrightarrow> f \<in> set (history_list r @ cache_list r)) \<and>
      (\<forall>f. is_evictable r f \<longrightarrow> f \<in> set (history_list r @ cache_list r)) \<and>
      curr_size r = length (filter (is_evictable r) (history_list r @ cache_list r)))"

text \<open>A sequence of calls, stopping at the first exception.\<close>

fun calls :: "('s \<Rightarrow> error + 's) list \<Rightarrow> 's \<Rightarrow> error + 's" where
  "calls [] s = Inr s"
| "calls (c # cs) s = (case c s of Inl e \<Rightarrow> Inl e | Inr s' \<Rightarrow> calls cs s')"

text \<open>
  The calls of the second LRU-K scenario of the specification, on a replacer for 3 frames
  with \<open>k = 2\<close>: accesses 1, 1, 2, 2, 2, 3, then frames 1, 2 and 3 set evictable.
\<close>

definition scenario_S2 :: "error + LRUKReplacer" where
  "scenario_S2 =
     calls [\<lambda>r. LRUKReplacer_RecordAccess r 1, \<lambda>r. LRUKReplacer_RecordAccess r 1,
            \<lambda>r. LRUKReplacer_RecordAccess r 2, \<lambda>r. LRUKReplacer_RecordAccess r 2,
            \<lambda>r. LRUKReplacer_RecordAccess r 2, \<lambda>r. LRUKReplacer_RecordAccess r 3,
            \<lambda>r. LRUKReplacer_SetEvictable r 1 True, \<lambda>r. LRUKReplacer_SetEvictable r 2 True,
            \<lambda>r. LRUKReplacer_SetEvictable r 3 True]
       (LRUKReplacer_new 3 2)"

section \<open>Buffer pool manager (buffer/buffer\_pool\_manager\_instance.cpp)\<close>

text \<open>
  A \<open>Page\<close> (storage/page/page.h, not among the sources) carries its page id, pin count
  and dirty flag and the byte buffer \<open>data\<close>; \<open>ResetMemory\<close> zeroes the buffer, so the
  buffer is a value of any type with a zero. Page ids and frame ids are 32-bit \<open>int\<close>s;
  the page-id counter is not followed past \<open>2^31\<close>. \<open>INVALID_PAGE_ID\<close> is \<open>-1\<close>
  (common/config.h). The disk manager is outside the repository's core: \<open>WritePage\<close>
  stores the buffer under the page id and \<open>ReadPage\<close> returns what is stored there.
  A frame id \<open>f\<close> denotes \<open>pages_[f]\<close>; the page table is the extendible hash table on
  \<open>std::hash<int>\<close>.
\<close>

record 'd Page =
  page_id :: int
  pin_count :: int
  is_dirty :: bool
  data :: 'd

definition INVALID_PAGE_ID :: int where
  "INVALID_PAGE_ID = - 1"

definition is_page_id :: "int \<Rightarrow> bool" where
  "is_page_id p = (- (2 ^ 31) \<le> p \<and> p < 2 ^ 31)"

record 'd BufferPoolManagerInstance =
  pool_size :: nat
  pages :: "'d Page list"
  page_table :: "(int, int) ExtendibleHashTable"
  replacer :: LRUKReplacer
  free_list :: "int list"
  next_page_id :: int
  disk :: "int \<Rightarrow> 'd"

definition Page_new :: "('d::zero) Page" where
  "Page_new = \<lparr>page_id = INVALID_PAGE_ID, pin_count = 0, is_dirty = False, data = 0\<rparr>"

text \<open>The constructor; \<open>bucket_size_\<close> is a constant of the header, here the parameter \<open>bsz\<close>.\<close>

definition BufferPoolManagerInstance_new ::
  "nat \<Rightarrow> nat \<Rightarrow> nat \<Rightarrow> (int \<Rightarrow> 'd) \<Rightarrow> ('d::zero) BufferPoolManagerInstance" where
  "BufferPoolManagerInstance_new n replacer_k_arg bsz dsk =
     \<lparr>pool_size = n, pages = replicate n Page_new,
      page_table = ExtendibleHashTable_new bsz,
      replacer = LRUKReplacer_new n replacer_k_arg,
      free_list = map int [0..<n], next_page_id = 0, disk = dsk\<rparr>"

definition frame :: "'d BufferPoolManagerInstance \<Rightarrow> int \<Rightarrow> 'd Page" where
  "frame s frame_id = pages s ! nat frame_id"

definition set_frame ::
  "'d BufferPoolManagerInstance \<Rightarrow> int \<Rightarrow> 'd Page \<Rightarrow> 'd BufferPoolManagerInstance" where
  "set_frame s frame_id p = s\<lparr>pages := (pages s)[nat frame_id := p]\<rparr>"

text \<open>
  The scan at the head of \<open>NewPgImp\<close> and of the miss path of \<open>FetchPgImp\<close>: the loop
  leaves \<open>i = pool_size_\<close> iff no frame has pin count 0.
\<close>

definition every_frame_pinned :: "'d BufferPoolManagerInstance \<Rightarrow> bool" where
  "every_frame_pinned s = list_all (\<lambda>p. pin_count p \<noteq> 0) (take (pool_size s) (pages s))"

text \<open>
  Lines 56-74 of \<open>NewPgImp\<close> and lines 113-129 of \<open>FetchPgImp\<close> are the same statements:
  take the frame at the back of the free list if there is one; otherwise ask the replacer,
  write the victim back if it is dirty and clear the flag, reset its buffer and remove
  its page id from the page table. \<open>None\<close> is the \<open>return nullptr\<close> of the block.
\<close>

definition take_frame ::
  "('d::zero) BufferPoolManagerInstance \<Rightarrow> int option \<times> 'd BufferPoolManagerInstance" where
  "take_frame s =
     (if free_list s \<noteq> []
      then (Some (last (free_list s)), s\<lparr>free_list := butlast (free_list s)\<rparr>)
      else case LRUKReplacer_Evict (replacer s) of
        (None, r) \<Rightarrow> (None, s\<lparr>replacer := r\<rparr>)
      | (Some frame_id, r) \<Rightarrow>
          let s1 = s\<lparr>replacer := r\<rparr>;
              evict_page_id = page_id (frame s1 frame_id);
              s2 = (if is_dirty (frame s1 frame_id)
                    then set_frame (s1\<lparr>disk := (disk s1)(evict_page_id := data (frame s1 frame_id))\<rparr>)
                           frame_id ((frame s1 frame_id)\<lparr>is_dirty := False\<rparr>)
                    else s1);
              s3 = set_frame s2 frame_id ((frame s2 frame_id)\<lparr>data := 0\<rparr>);
              s4 = s3\<lparr>page_table :=
                        snd (ExtendibleHashTable_Remove hash_int (page_table s3) evict_page_id)\<rparr>
          in (Some frame_id, s4))"

text \<open>\<open>RecordAccess(frame_id)\<close> followed by \<open>SetEvictable(frame_id, false)\<close>.\<close>

definition touch_frame :: "LRUKReplacer \<Rightarrow> int \<Rightarrow> error + LRUKReplacer" where
  "touch_frame r frame_id =
     (case LRUKReplacer_RecordAccess r frame_id of
        Inl e \<Rightarrow> Inl e
      | Inr r1 \<Rightarrow> LRUKReplacer_SetEvictable r1 frame_id False)"

text \<open>
  \<open>NewPgImp\<close> returns the page id and the frame of the new page, or \<open>None\<close> for \<open>nullptr\<close>.
  A call of the page table's \<open>Insert\<close> that does not return is the outcome \<open>no_return\<close>.
\<close>

definition NewPgImp ::
  "('d::zero) BufferPoolManagerInstance
     \<Rightarrow> error + ((int \<times> int) option \<times> 'd BufferPoolManagerInstance)" where
  "NewPgImp s =
     (if every_frame_pinned s then Inr (None, s)
      else case take_frame s of
        (None, s1) \<Rightarrow> Inr (None, s1)
      | (Some frame_id, s1) \<Rightarrow>
          let new_page_id = next_page_id s1;
              s2 = s1\<lparr>next_page_id := next_page_id s1 + 1\<rparr>
          in case ExtendibleHashTable_Insert hash_int (page_table s2) new_page_id frame_id of
               None \<Rightarrow> Inl no_return
             | Some pt \<Rightarrow>
                 (case touch_frame (replacer s2) frame_id of
                    Inl e \<Rightarrow> Inl e
                  | Inr r \<Rightarrow>
                      let s3 = s2\<lparr>page_table := pt, replacer := r\<rparr>
                      in Inr (Some (new_page_id, frame_id),
                              set_frame s3 frame_id
                                ((frame s3 frame_id)\<lparr>page_id := new_page_id, pin_count := 1\<rparr>))))"

definition FetchPgImp ::
  "('d::zero) BufferPoolManagerInstance \<Rightarrow> int
     \<Rightarrow> error + (int option \<times> 'd BufferPoolManagerInstance)" where
  "FetchPgImp s pid =
     (case ExtendibleHashTable_Find hash_int (page_table s) pid of
        Some frame_id \<Rightarrow>
          let s1 = set_frame s frame_id
                     ((frame s frame_id)\<lparr>pin_count := pin_count (frame s frame_id) + 1\<rparr>)
          in (case touch_frame (replacer s1) frame_id of
                Inl e \<Rightarrow> Inl e
              | Inr r \<Rightarrow> Inr (Some frame_id, s1\<lparr>replacer := r\<rparr>))
      | None \<Rightarrow>
          if every_frame_pinned s then Inr (None, s)
          else case take_frame s of
            (None, s1) \<Rightarrow> Inr (None, s1)
          | (Some frame_id, s1) \<Rightarrow>
              (case ExtendibleHashTable_Insert hash_int (page_table s1) pid frame_id of
                 None \<Rightarrow> Inl no_return
               | Some pt \<Rightarrow>
                   let s2 = s1\<lparr>page_table := pt\<rparr>;
                       s3 = set_frame s2 frame_id
                              ((frame s2 frame_id)\<lparr>page_id := pid, pin_count := 1\<rparr>);
                       s4 = set_frame s3 frame_id ((frame s3 frame_id)\<lparr>data := disk s3 pid\<rparr>)
                   in (case touch_frame (replacer s4) frame_id of
                         Inl e \<Rightarrow> Inl e
                       | Inr r \<Rightarrow> Inr (Some frame_id, s4\<lparr>replacer := r\<rparr>))))"

definition UnpinPgImp ::
  "'d BufferPoolManagerInstance \<Rightarrow> int \<Rightarrow> bool
     \<Rightarrow> error + (bool \<times> 'd BufferPoolManagerInstance)" where
  "UnpinPgImp s pid dirty =
     (case ExtendibleHashTable_Find hash_int (page_table s) pid of
        None \<Rightarrow> Inr (False, s)
      | Some frame_id \<Rightarrow>
          if pid = INVALID_PAGE_ID then Inr (False, s)
          else if pin_count (frame s frame_id) \<le> 0 then Inr (False, s)
          else
            let s1 = (if dirty then set_frame s frame_id ((frame s frame_id)\<lparr>is_dirty := dirty\<rparr>)
                      else s);
                s2 = set_frame s1 frame_id
                       ((frame s1 frame_id)\<lparr>pin_count := pin_count (frame s1 frame_id) - 1\<rparr>)
            in if pin_count (frame s2 frame_id) = 0
               then (case LRUKReplacer_SetEvictable (replacer s2) frame_id True of
                       Inl e \<Rightarrow> Inl e
                     | Inr r \<Rightarrow> Inr (True, s2\<lparr>replacer := r\<rparr>))
               else Inr (True, s2))"

definition FlushPgImp ::
  "'d BufferPoolManagerInstance \<Rightarrow> int \<Rightarrow> bool \<times> 'd BufferPoolManagerInstance" where
  "FlushPgImp s pid =
     (case ExtendibleHashTable_Find hash_int (page_table s) pid of
        None \<Rightarrow> (False, s)
      | Some frame_id \<Rightarrow>
          if pid = INVALID_PAGE_ID then (False, s)
          else
            let s1 = s\<lparr>disk := (disk s)(pid := data (frame s frame_id))\<rparr>
            in (True, set_frame s1 frame_id ((frame s1 frame_id)\<lparr>is_dirty := False\<rparr>)))"

definition DeletePgImp ::
  "('d::zero) BufferPoolManagerInstance \<Rightarrow> int
     \<Rightarrow> error + (bool \<times> 'd BufferPoolManagerInstance)" where
  "DeletePgImp s pid =
     (case ExtendibleHashTable_Find hash_int (page_table s) pid of
        None \<Rightarrow> Inr (True, s)
      | Some frame_id \<Rightarrow>
          if pid = INVALID_PAGE_ID then Inr (True, s)
          else if pin_count (frame s frame_id) > 0 then Inr (False, s)
          else case LRUKReplacer_Remove (replacer s) frame_id of
            Inl e \<Rightarrow> Inl e
          | Inr r \<Rightarrow>
              let s1 = set_frame (s\<lparr>replacer := r\<rparr>) frame_id
                         \<lparr>page_id = INVALID_PAGE_ID, pin_count = 0, is_dirty = False, data = 0\<rparr>;
                  s2 = s1\<lparr>page_table := snd (ExtendibleHashTable_Remove hash_int (page_table s1) pid)\<rparr>
              in Inr (True, s2\<lparr>free_list := frame_id # free_list s2\<rparr>))"

text \<open>
  The invariant of the pool. The page array has \<open>pool_size\<close> entries and the replacer is
  built for as many frames; the free list holds frames of the pool, each once; the frames
  on the replacer's lists are frames of the pool; pin counts are not negative, and a
  frame with pin count 0 is on the free list or evictable in the replacer. The page table
  satisfies its own invariant, its buckets hold at least 2 pairs and its keys are 32-bit
  page ids; it maps a page id only to a frame of the pool that holds this page id, has
  been recorded in the replacer and is not on the free list.
\<close>

definition table_ok :: "(int, int) ExtendibleHashTable \<Rightarrow> bool" where
  "table_ok t =
     (dir_inv t \<and> items_inv hash_int t \<and> 2 \<le> bucket_size t \<and>
      (\<forall>k. ExtendibleHashTable_Find hash_int t k \<noteq> None \<longrightarrow> is_page_id k))"

definition is_frame :: "'d BufferPoolManagerInstance \<Rightarrow> int \<Rightarrow> bool" where
  "is_frame s f = (0 \<le> f \<and> f < int (pool_size s))"

definition bpm_inv :: "'d BufferPoolManagerInstance \<Rightarrow> bool" where
  "bpm_inv s =
     (length (pages s) = pool_size s \<and>
      replacer_size (replacer s) = pool_size s \<and>
      replacer_inv (replacer s) \<and>
      distinct (free_list s) \<and>
      (\<forall>f \<in> set (free_list s). is_frame s f) \<and>
      (\<forall>f \<in> set (history_list (replacer s) @ cache_list (replacer s)). is_frame s f) \<and>
      (\<forall>f. is_frame s f \<longrightarrow>
         0 \<le> pin_count (frame s f) \<and>
         (pin_count (frame s f) = 0 \<longrightarrow>
            f \<in> set (free_list s) \<or> is_evictable (replacer s) f)) \<and>
      table_ok (page_table s) \<and>
      (\<forall>p f. ExtendibleHashTable_Find hash_int (page_table s) p = Some f \<longrightarrow>
         is_frame s f \<and> page_id (frame s f) = p \<and>
         0 < access_count (replacer s) f \<and> f \<notin> set (free_list s)))"

text \<open>
  Between the choice of a frame and its installation under the new page id, the invariant
  holds with the chosen frame set aside: it is on neither the free list nor a page-table
  entry, and nothing is required of its pin count.
\<close>

definition frame_taken_inv :: "'d BufferPoolManagerInstance \<Rightarrow> int \<Rightarrow> bool" where
  "frame_taken_inv s f =
     (is_frame s f \<and>
      length (pages s) = pool_size s \<and>
      replacer_size (replacer s) = pool_size s \<and>
      replacer_inv (replacer s) \<and>
      distinct (free_list s) \<and> f \<notin> set (free_list s) \<and>
      (\<forall>g \<in> set (free_list s). is_frame s g) \<and>
      (\<forall>g \<in> set (history_list (replacer s) @ cache_list (replacer s)). is_frame s g) \<and>
      (\<forall>g. is_frame s g \<and> g \<noteq> f \<longrightarrow>
         0 \<le> pin_count (frame s g) \<and>
         (pin_count (frame s g) = 0 \<longrightarrow>
            g \<in> set (free_list s) \<or> is_evictable (replacer s) g)) \<and>
      table_ok (page_table s) \<and>
      (\<forall>p g. ExtendibleHashTable_Find hash_int (page_table s) p = Some g \<longrightarrow>
         g \<noteq> f \<and> is_frame s g \<and> page_id (frame s g) = p \<and>
         0 < access_count (replacer s) g \<and> g \<notin> set (free_list s)))"

text \<open>
  The third scenario of the specification up to its \<open>Unpin\<close>, on a pool of 2 frames whose
  disk holds 5 everywhere: \<open>NewPage\<close> three times, the third failing, then page 0 is
  unpinned, here as dirty.
\<close>

definition scenario_S3 :: "error + nat BufferPoolManagerInstance" where
  "scenario_S3 =
     calls [\<lambda>s. map_sum id snd (NewPgImp s), \<lambda>s. map_sum id snd (NewPgImp s),
            \<lambda>s. map_sum id snd (NewPgImp s), \<lambda>s. map_sum id snd (UnpinPgImp s 0 True)]
       (BufferPoolManagerInstance_new 2 2 2 (\<lambda>_. 5))"

section \<open>B+-tree (storage/page/b\_plus\_tree\_leaf\_page.cpp, b\_plus\_tree\_internal\_page.cpp,
  storage/index/b\_plus\_tree.cpp)\<close>

text \<open>
  A tree page is the header of \<open>BPlusTreePage\<close> followed by the leaf's \<open>next_page_id_\<close> and
  the flexible array of pairs. Leaf and internal pages share the header only; the model
  keeps one record with the header, the sibling pointer and one array for each of the two
  element types, and an index into \<open>array_\<close> is an \<open>int\<close> as in the code. A page never
  written holds zeroes (\<open>ResetMemory\<close>). The fields carry the prefix \<open>node_\<close> because
  \<open>page_id\<close> and \<open>next_page_id\<close> are fields of the buffer pool above.

  Modelled from the spec: the accessors of the header (b\_plus\_tree\_page.cpp is not among
  the sources) read and write the field of their name, \<open>IncreaseSize\<close> adds to the size
  and \<open>IsLeafPage\<close> tests the type tag. \<open>GetMinSize\<close> and \<open>IsRootPage\<close> of the same file are
  parameters of the functions that call them.
\<close>

datatype IndexPageType = INVALID_INDEX_PAGE | LEAF_PAGE | INTERNAL_PAGE

record ('k, 'v) BPlusTreePage =
  node_page_type :: IndexPageType
  node_size :: int
  node_max_size :: int
  node_parent_page_id :: int
  node_page_id :: int
  node_next_page_id :: int
  leaf_array :: "int \<Rightarrow> 'k \<times> 'v"
  internal_array :: "int \<Rightarrow> 'k \<times> int"

definition zero_page :: "('k::zero, 'v::zero) BPlusTreePage" where
  "zero_page =
     \<lparr>node_page_type = INVALID_INDEX_PAGE, node_size = 0, node_max_size = 0,
      node_parent_page_id = 0, node_page_id = 0, node_next_page_id = 0,
      leaf_array = (\<lambda>_. (0, 0)), internal_array = (\<lambda>_. (0, 0))\<rparr>"

definition IsLeafPage :: "('k, 'v) BPlusTreePage \<Rightarrow> bool" where
  "IsLeafPage p = (node_page_type p = LEAF_PAGE)"

datatype Operation = READ | INSERT | DELETE

text \<open>
  The page set of a transaction is a deque of \<open>Page *\<close>; a \<open>Page *\<close> obtained from the pool
  is represented by the id of the page it holds. \<open>None\<close> is the null transaction.
\<close>

record Transaction =
  page_set :: "int list"
  deleted_page_set :: "int list"

text \<open>
  Modelled from the spec: the tree reaches the pool through the interface
  \<open>BufferPoolManager\<close>. The pool of the tree is the contract of that interface for a pool
  that never runs out of frames: \<open>NewPage\<close> hands out the value of a counter and a zeroed
  page pinned once, \<open>FetchPage\<close> pins a page, \<open>UnpinPage\<close> lowers a positive pin count,
  \<open>DeletePage\<close> drops a page whose pin count is 0. Fetching a page that was never made
  or has been deleted is outside the model (\<open>None\<close>). Latches are not modelled: the
  calls are sequential.

  The tree object: its members, and the state of the pool it points to.
\<close>

record ('k, 'v) BPlusTree =
  root_page_id :: int
  leaf_max_size :: int
  internal_max_size :: int
  comparator :: "'k \<Rightarrow> 'k \<Rightarrow> int"
  pool_pages :: "int \<Rightarrow> ('k, 'v) BPlusTreePage option"
  pool_pins :: "int \<Rightarrow> int"
  pool_next_page_id :: int

definition BPlusTree_new ::
  "('k \<Rightarrow> 'k \<Rightarrow> int) \<Rightarrow> int \<Rightarrow> int \<Rightarrow> int \<Rightarrow> ('k, 'v) BPlusTree" where
  "BPlusTree_new cmp leaf_max internal_max first_page_id =
     \<lparr>root_page_id = INVALID_PAGE_ID, leaf_max_size = leaf_max,
      internal_max_size = internal_max, comparator = cmp,
      pool_pages = (\<lambda>_. None), pool_pins = (\<lambda>_. 0), pool_next_page_id = first_page_id\<rparr>"

definition NewPage :: "('k::zero, 'v::zero) BPlusTree \<Rightarrow> int \<times> ('k, 'v) BPlusTree" where
  "NewPage t =
     (pool_next_page_id t,
      t\<lparr>pool_pages := (pool_pages t)(pool_next_page_id t \<mapsto> zero_page),
        pool_pins := (pool_pins t)(pool_next_page_id t := 1),
        pool_next_page_id := pool_next_page_id t + 1\<rparr>)"

definition FetchPage :: "('k, 'v) BPlusTree \<Rightarrow> int \<Rightarrow> ('k, 'v) BPlusTree option" where
  "FetchPage t pid =
     (case pool_pages t pid of
        None \<Rightarrow> None
      | Some _ \<Rightarrow> Some (t\<lparr>pool_pins := (pool_pins t)(pid := pool_pins t pid + 1)\<rparr>))"

definition UnpinPage :: "('k, 'v) BPlusTree \<Rightarrow> int \<Rightarrow> ('k, 'v) BPlusTree" where
  "UnpinPage t pid =
     (if pool_pages t pid = None \<or> pool_pins t pid \<le> 0 then t
      else t\<lparr>pool_pins := (pool_pins t)(pid := pool_pins t pid - 1)\<rparr>)"

definition DeletePage :: "('k, 'v) BPlusTree \<Rightarrow> int \<Rightarrow> ('k, 'v) BPlusTree" where
  "DeletePage t pid =
     (if pool_pages t pid \<noteq> None \<and> pool_pins t pid \<le> 0
      then t\<lparr>pool_pages := (pool_pages t)(pid := None)\<rparr> else t)"

text \<open>A write through a pointer into the page \<open>pid\<close>.\<close>

definition update_page ::
  "('k, 'v) BPlusTree \<Rightarrow> int \<Rightarrow> (('k, 'v) BPlusTreePage \<Rightarrow> ('k, 'v) BPlusTreePage)
     \<Rightarrow> ('k, 'v) BPlusTree option" where
  "update_page t pid f =
     (case pool_pages t pid of
        None \<Rightarrow> None
      | Some p \<Rightarrow> Some (t\<lparr>pool_pages := (pool_pages t)(pid \<mapsto> f p)\<rparr>))"

primrec ofold :: "('a \<Rightarrow> 's \<Rightarrow> 's option) \<Rightarrow> 'a list \<Rightarrow> 's \<Rightarrow> 's option" where
  "ofold f [] s = Some s"
| "ofold f (x # xs) s = (case f x s of None \<Rightarrow> None | Some s' \<Rightarrow> ofold f xs s')"

subsection \<open>Leaf pages\<close>

definition LeafPage_Init ::
  "('k, 'v) BPlusTreePage \<Rightarrow> int \<Rightarrow> int \<Rightarrow> int \<Rightarrow> ('k, 'v) BPlusTreePage" where
  "LeafPage_Init p pid parent_id max_size =
     p\<lparr>node_page_id := pid, node_parent_page_id := parent_id,
       node_next_page_id := INVALID_PAGE_ID, node_max_size := max_size,
       node_page_type := LEAF_PAGE, node_size := 0\<rparr>"

text \<open>
  The binary searches of \<open>KeyIndex\<close>: \<open>while (l < r)\<close> with \<open>mid = (l + r) / 2\<close>. Both
  callers start with \<open>0 \<le> l\<close>, where \<open>/\<close> on \<open>int\<close> is \<open>div\<close>.
\<close>

function bsearch :: "(int \<Rightarrow> bool) \<Rightarrow> int \<Rightarrow> int \<Rightarrow> int" where
  "bsearch below l r =
     (if l < r
      then (if below ((l + r) div 2) then bsearch below ((l + r) div 2 + 1) r
            else bsearch below l ((l + r) div 2))
      else l)"
  by pat_completeness auto

termination
  by (relation "measure (\<lambda>(below, l, r). nat (r - l))") auto

definition LeafPage_KeyIndex ::
  "('k \<Rightarrow> 'k \<Rightarrow> int) \<Rightarrow> ('k, 'v) BPlusTreePage \<Rightarrow> 'k \<Rightarrow> int" where
  "LeafPage_KeyIndex cmp p key =
     (if 0 \<ge> node_size p then node_size p
      else bsearch (\<lambda>mid. cmp (fst (leaf_array p mid)) key < 0) 0 (node_size p))"

definition LeafPage_Insert ::
  "('k \<Rightarrow> 'k \<Rightarrow> int) \<Rightarrow> ('k, 'v) BPlusTreePage \<Rightarrow> 'k \<times> 'v \<Rightarrow> int
     \<Rightarrow> bool \<times> ('k, 'v) BPlusTreePage" where
  "LeafPage_Insert cmp p entry index =
     (if index < node_size p \<and> cmp (fst entry) (fst (leaf_array p index)) = 0 then (False, p)
      else (True,
            p\<lparr>leaf_array :=
                (fold (\<lambda>i a. a(i + 1 := a i)) (rev [index..node_size p - 1]) (leaf_array p))
                  (index := entry),
              node_size := node_size p + 1\<rparr>))"

text \<open>
  \<open>Split\<close>: the loop runs \<open>i\<close> from \<open>GetSize() / 2\<close> up to \<open>GetMaxSize()\<close>, moving one pair
  and one unit of size per round; the result is this page and the brother.
\<close>

definition LeafPage_Split ::
  "('k, 'v) BPlusTreePage \<Rightarrow> ('k, 'v) BPlusTreePage \<Rightarrow> int
     \<Rightarrow> ('k, 'v) BPlusTreePage \<times> ('k, 'v) BPlusTreePage" where
  "LeafPage_Split p brother brother_page_id =
     (let mid = node_size p div 2;
          (p1, b1) =
            fold (\<lambda>i (n, b).
                    (n\<lparr>node_size := node_size n - 1\<rparr>,
                     b\<lparr>leaf_array := (leaf_array b)(i - mid := leaf_array n i),
                       node_size := node_size b + 1\<rparr>))
              [mid..node_max_size p - 1] (p, brother)
      in (p1\<lparr>node_next_page_id := brother_page_id\<rparr>,
          b1\<lparr>node_next_page_id := node_next_page_id p1\<rparr>))"





subsection \<open>Internal pages\<close>

definition InternalPage_Init ::
  "('k, 'v) BPlusTreePage \<Rightarrow> int \<Rightarrow> int \<Rightarrow> int \<Rightarrow> ('k, 'v) BPlusTreePage" where
  "InternalPage_Init p pid parent_id max_size =
     p\<lparr>node_page_id := pid, node_parent_page_id := parent_id, node_max_size := max_size,
       node_page_type := INTERNAL_PAGE, node_size := 0\<rparr>"


definition InternalPage_Lookup ::
  "('k \<Rightarrow> 'k \<Rightarrow> int) \<Rightarrow> ('k, 'v) BPlusTreePage \<Rightarrow> 'k \<Rightarrow> int" where
  "InternalPage_Lookup cmp p key =
     (case find (\<lambda>i. cmp (fst (internal_array p i)) key > 0) [1..node_size p - 1] of
        Some i \<Rightarrow> snd (internal_array p (i - 1))
      | None \<Rightarrow> snd (internal_array p (node_size p - 1)))"

text \<open>
  The loop of \<open>Insert\<close> over \<open>i = GetSize() - 1, ..., 1\<close>, given the indices still to
  visit; when they are used up the pair goes to index 1.
\<close>

fun insert_from_back ::
  "('k \<Rightarrow> 'k \<Rightarrow> int) \<Rightarrow> 'k \<times> int \<Rightarrow> int list \<Rightarrow> (int \<Rightarrow> 'k \<times> int) \<Rightarrow> int \<Rightarrow> 'k \<times> int" where
  "insert_from_back cmp entry [] a = a(1 := entry)"
| "insert_from_back cmp entry (i # rest) a =
     (if cmp (fst (a i)) (fst entry) > 0 then insert_from_back cmp entry rest (a(i + 1 := a i))
      else a(i + 1 := entry))"

definition InternalPage_Insert ::
  "('k \<Rightarrow> 'k \<Rightarrow> int) \<Rightarrow> ('k, 'v) BPlusTreePage \<Rightarrow> 'k \<times> int \<Rightarrow> ('k, 'v) BPlusTreePage" where
  "InternalPage_Insert cmp p entry =
     p\<lparr>internal_array :=
         insert_from_back cmp entry (rev [1..node_size p - 1]) (internal_array p),
       node_size := node_size p + 1\<rparr>"





text \<open>
  The first loops of \<open>Split\<close> on the temporary array: the pairs \<open>0 .. GetMaxSize() - 1\<close> are
  copied, then the new pair is inserted from the back; \<open>True\<close> is the \<open>break\<close>.
\<close>

fun split_insert ::
  "('k \<Rightarrow> 'k \<Rightarrow> int) \<Rightarrow> 'k \<times> int \<Rightarrow> int list \<Rightarrow> (int \<Rightarrow> 'k \<times> int)
     \<Rightarrow> bool \<times> (int \<Rightarrow> 'k \<times> int)" where
  "split_insert cmp entry [] temp = (False, temp)"
| "split_insert cmp entry (i # rest) temp =
     (if cmp (fst (temp i)) (fst entry) > 0 then split_insert cmp entry rest (temp(i + 1 := temp i))
      else (True, temp(i + 1 := entry)))"

definition split_temp ::
  "('k::zero \<Rightarrow> 'k \<Rightarrow> int) \<Rightarrow> ('k, 'v) BPlusTreePage \<Rightarrow> 'k \<times> int \<Rightarrow> int \<Rightarrow> 'k \<times> int" where
  "split_temp cmp p entry =
     (let temp0 = fold (\<lambda>i temp. temp(i := internal_array p i)) [1..node_max_size p - 1]
                    ((\<lambda>_. (0, 0))(0 := internal_array p 0));
          (stopped, temp1) = split_insert cmp entry (rev [1..node_max_size p - 1]) temp0
      in if \<not> stopped \<and> 0 \<le> node_max_size p - 1 then temp1(1 := entry) else temp1)"

text \<open>
  \<open>Split(key, brother_page, parent_page, ...)\<close> on the page \<open>this\<close>: \<open>brother_page\<close> is the
  new child and \<open>parent_page\<close> the new page that takes the upper half.
\<close>

definition InternalPage_Split ::
  "('k::zero, 'v) BPlusTree \<Rightarrow> int \<Rightarrow> 'k \<Rightarrow> int \<Rightarrow> int \<Rightarrow> ('k, 'v) BPlusTree option" where
  "InternalPage_Split t this key brother_page parent_page =
     do {
       p \<leftarrow> pool_pages t this;
       let temp = split_temp (comparator t) p (key, brother_page);
       let mid = (node_max_size p + 1) div 2;
       t1 \<leftarrow> update_page t brother_page (\<lambda>b. b\<lparr>node_parent_page_id := node_page_id p\<rparr>);
       t2 \<leftarrow> update_page t1 this
               (\<lambda>n. n\<lparr>node_size := node_size n + 1,
                      internal_array :=
                        fold (\<lambda>i a. a(i := temp i)) [0..mid - 1] (internal_array n)\<rparr>);
       ofold (\<lambda>m s. do {
                s1 \<leftarrow> FetchPage s (snd (temp m));
                parent_page_node \<leftarrow> pool_pages s1 parent_page;
                s2 \<leftarrow> update_page s1 (snd (temp m))
                        (\<lambda>c. c\<lparr>node_parent_page_id := node_page_id parent_page_node\<rparr>);
                s3 \<leftarrow> update_page s2 parent_page
                        (\<lambda>n. n\<lparr>internal_array := (internal_array n)(m - mid := temp m),
                               node_size := node_size n + 1\<rparr>);
                s4 \<leftarrow> update_page s3 this (\<lambda>n. n\<lparr>node_size := node_size n - 1\<rparr>);
                Some (UnpinPage s4 (snd (temp m)))
              })
         [mid..node_max_size p] t2
     }"


subsection \<open>The tree\<close>

definition IsEmpty :: "('k, 'v) BPlusTree \<Rightarrow> bool" where
  "IsEmpty t = (root_page_id t = INVALID_PAGE_ID)"

definition BPlusTree_GetMaxSize :: "('k, 'v) BPlusTree \<Rightarrow> ('k, 'v) BPlusTreePage \<Rightarrow> int" where
  "BPlusTree_GetMaxSize t p = (if IsLeafPage p then leaf_max_size t - 1 else internal_max_size t)"

definition IsSafe ::
  "(('k, 'v) BPlusTreePage \<Rightarrow> int) \<Rightarrow> ('k, 'v) BPlusTree \<Rightarrow> ('k, 'v) BPlusTreePage \<Rightarrow> Operation
     \<Rightarrow> bool" where
  "IsSafe GetMinSize t node op =
     (if op = INSERT then node_size node < BPlusTree_GetMaxSize t node
      else if node_parent_page_id node = INVALID_PAGE_ID
      then (if IsLeafPage node then True else node_size node > 2)
      else node_size node > GetMinSize node)"

definition UnlockAndUnpin ::
  "('k, 'v) BPlusTree \<Rightarrow> Transaction option \<Rightarrow> ('k, 'v) BPlusTree \<times> Transaction option" where
  "UnlockAndUnpin t transaction =
     (case transaction of
        None \<Rightarrow> (t, None)
      | Some tx \<Rightarrow>
          (fold (\<lambda>page s. DeletePage s page) (deleted_page_set tx)
             (fold (\<lambda>page s. UnpinPage s page) (page_set tx) t),
           Some (tx\<lparr>page_set := [], deleted_page_set := []\<rparr>)))"

definition AddIntoPageSet :: "Transaction option \<Rightarrow> int \<Rightarrow> Transaction option" where
  "AddIntoPageSet transaction page =
     (case transaction of
        None \<Rightarrow> None
      | Some tx \<Rightarrow> Some (tx\<lparr>page_set := page_set tx @ [page]\<rparr>))"

text \<open>
  The descent of \<open>FindLeafPage\<close> from the page \<open>curr_page\<close>. A chain of children that
  never reaches a leaf keeps the loop running: the value is \<open>None\<close>.
\<close>

partial_function (option) descend ::
  "(('k, 'v) BPlusTreePage \<Rightarrow> int) \<Rightarrow> ('k, 'v) BPlusTree \<Rightarrow> Transaction option \<Rightarrow> 'k
     \<Rightarrow> Operation \<Rightarrow> int \<Rightarrow> (('k, 'v) BPlusTree \<times> Transaction option \<times> int) option" where
  "descend GetMinSize t transaction key op curr_page =
     (case pool_pages t curr_page of
        None \<Rightarrow> None
      | Some curr_page_node \<Rightarrow>
          if IsLeafPage curr_page_node then Some (t, transaction, curr_page)
          else
            (case FetchPage t (InternalPage_Lookup (comparator t) curr_page_node key) of
               None \<Rightarrow> None
             | Some t1 \<Rightarrow>
                 (case pool_pages t1 (InternalPage_Lookup (comparator t) curr_page_node key) of
                    None \<Rightarrow> None
                  | Some next_page_node \<Rightarrow>
                      descend GetMinSize
                        (fst (if op = READ
                              then (if transaction \<noteq> None then UnlockAndUnpin t1 transaction
                                    else (UnpinPage t1 curr_page, transaction))
                              else if IsSafe GetMinSize t1 next_page_node op
                              then UnlockAndUnpin t1 transaction else (t1, transaction)))
                        (AddIntoPageSet
                           (snd (if op = READ
                                 then (if transaction \<noteq> None then UnlockAndUnpin t1 transaction
                                       else (UnpinPage t1 curr_page, transaction))
                                 else if IsSafe GetMinSize t1 next_page_node op
                                 then UnlockAndUnpin t1 transaction else (t1, transaction)))
                           (InternalPage_Lookup (comparator t) curr_page_node key))
                        key op (InternalPage_Lookup (comparator t) curr_page_node key))))"

text \<open>
  \<open>FindLeafPage\<close>; the inner \<open>None\<close> is \<open>nullptr\<close>. The first loop fetches the root until
  the page fetched is the root; with sequential calls the first page fetched is.
\<close>

definition FindLeafPage ::
  "(('k, 'v) BPlusTreePage \<Rightarrow> int) \<Rightarrow> ('k, 'v) BPlusTree \<Rightarrow> Transaction option \<Rightarrow> 'k
     \<Rightarrow> Operation \<Rightarrow> (('k, 'v) BPlusTree \<times> Transaction option \<times> int option) option" where
  "FindLeafPage GetMinSize t transaction key op =
     (if IsEmpty t then Some (t, transaction, None)
      else do {
        t1 \<leftarrow> FetchPage t (root_page_id t);
        (t2, tx2, leaf) \<leftarrow>
          descend GetMinSize t1 (AddIntoPageSet transaction (root_page_id t)) key op (root_page_id t);
        Some (t2, tx2, Some leaf)
      })"

definition GetValue ::
  "(('k, 'v) BPlusTreePage \<Rightarrow> int) \<Rightarrow> ('k, 'v) BPlusTree \<Rightarrow> Transaction option \<Rightarrow> 'k
     \<Rightarrow> 'v list \<Rightarrow> (bool \<times> 'v list \<times> ('k, 'v) BPlusTree \<times> Transaction option) option" where
  "GetValue GetMinSize t transaction key result =
     (if IsEmpty t then Some (False, result, t, transaction)
      else do {
        (t1, tx1, page) \<leftarrow> FindLeafPage GetMinSize t transaction key READ;
        case page of
          None \<Rightarrow> Some (False, result, t1, tx1)
        | Some page \<Rightarrow> do {
            leaf_page \<leftarrow> pool_pages t1 page;
            let index = LeafPage_KeyIndex (comparator t1) leaf_page key;
            let (t2, tx2) = (if tx1 \<noteq> None then UnlockAndUnpin t1 tx1
                             else (UnpinPage t1 (node_page_id leaf_page), tx1));
            if index < node_size leaf_page
               \<and> comparator t1 (fst (leaf_array leaf_page index)) key = 0
            then Some (True, result @ [snd (leaf_array leaf_page index)], t2, tx2)
            else Some (False, result, t2, tx2)
          }
      })"

text \<open>
  \<open>InsertInParent\<close>. The recursion climbs the parent ids; parent ids that form a cycle
  keep it running: the value is \<open>None\<close>.
\<close>

partial_function (option) InsertInParent ::
  "('k::zero, 'v::zero) BPlusTree \<Rightarrow> int \<Rightarrow> 'k \<Rightarrow> int \<Rightarrow> ('k, 'v) BPlusTree option" where
  "InsertInParent t leaf_page key brother_page =
     (case pool_pages t leaf_page of
        None \<Rightarrow> None
      | Some tree_page \<Rightarrow>
          if node_parent_page_id tree_page = INVALID_PAGE_ID
          then do {
            t1 \<leftarrow> update_page (snd (NewPage t)) (fst (NewPage t))
                    (\<lambda>n. (InternalPage_Init n (fst (NewPage t)) INVALID_PAGE_ID (internal_max_size t))
                            \<lparr>internal_array :=
                               ((internal_array n)
                                  (0 := (fst (internal_array n 0), leaf_page)))
                                  (1 := (key, brother_page)),
                             node_size := 2\<rparr>);
            t2 \<leftarrow> update_page t1 leaf_page (\<lambda>n. n\<lparr>node_parent_page_id := fst (NewPage t)\<rparr>);
            t3 \<leftarrow> update_page t2 brother_page (\<lambda>n. n\<lparr>node_parent_page_id := fst (NewPage t)\<rparr>);
            Some (UnpinPage (t3\<lparr>root_page_id := fst (NewPage t)\<rparr>) (fst (NewPage t)))
          }
          else
            (case FetchPage t (node_parent_page_id tree_page) of
               None \<Rightarrow> None
             | Some t1 \<Rightarrow>
                 (case pool_pages t1 (node_parent_page_id tree_page) of
                    None \<Rightarrow> None
                  | Some parent_node \<Rightarrow>
                      if node_size parent_node < node_max_size parent_node
                      then do {
                        t2 \<leftarrow> update_page t1 (node_parent_page_id tree_page)
                                (\<lambda>n. InternalPage_Insert (comparator t1) n (key, brother_page));
                        t3 \<leftarrow> update_page t2 brother_page
                                (\<lambda>n. n\<lparr>node_parent_page_id := node_parent_page_id tree_page\<rparr>);
                        Some (UnpinPage t3 (node_parent_page_id tree_page))
                      }
                      else do {
                        t2 \<leftarrow> update_page (snd (NewPage t1)) (fst (NewPage t1))
                                (\<lambda>n. InternalPage_Init n (fst (NewPage t1)) INVALID_PAGE_ID
                                        (internal_max_size t1));
                        t3 \<leftarrow> InternalPage_Split t2 (node_parent_page_id tree_page) key
                                brother_page (fst (NewPage t1));
                        parent_bother_node \<leftarrow> pool_pages t3 (fst (NewPage t1));
                        t4 \<leftarrow> InsertInParent t3 (node_parent_page_id tree_page)
                                (fst (internal_array parent_bother_node 0)) (fst (NewPage t1));
                        Some (UnpinPage (UnpinPage t4 (fst (NewPage t1)))
                                (node_parent_page_id tree_page))
                      })))"

text \<open>
  The loop at the head of \<open>Insert\<close>: while there is no leaf, make the root if the tree is
  empty and look for the leaf again.
\<close>

partial_function (option) find_or_start ::
  "(('k, 'v) BPlusTreePage \<Rightarrow> int) \<Rightarrow> ('k::zero, 'v::zero) BPlusTree \<Rightarrow> Transaction option \<Rightarrow> 'k
     \<Rightarrow> int option \<Rightarrow> (('k, 'v) BPlusTree \<times> Transaction option \<times> int) option" where
  "find_or_start GetMinSize t transaction key leaf_page =
     (case leaf_page of
        Some page \<Rightarrow> Some (t, transaction, page)
      | None \<Rightarrow>
          (case (if IsEmpty t
                 then map_option
                        (\<lambda>t1. UnpinPage (t1\<lparr>root_page_id := fst (NewPage t)\<rparr>) (fst (NewPage t)))
                        (update_page (snd (NewPage t)) (fst (NewPage t))
                           (\<lambda>n. LeafPage_Init n (fst (NewPage t)) INVALID_PAGE_ID (leaf_max_size t)))
                 else Some t) of
             None \<Rightarrow> None
           | Some t2 \<Rightarrow>
               (case FindLeafPage GetMinSize t2 transaction key INSERT of
                  None \<Rightarrow> None
                | Some (t3, tx3, leaf) \<Rightarrow> find_or_start GetMinSize t3 tx3 key leaf)))"

definition BPlusTree_Insert ::
  "(('k, 'v) BPlusTreePage \<Rightarrow> int) \<Rightarrow> ('k::zero, 'v::zero) BPlusTree \<Rightarrow> Transaction option
     \<Rightarrow> 'k \<Rightarrow> 'v \<Rightarrow> (bool \<times> ('k, 'v) BPlusTree \<times> Transaction option) option" where
  "BPlusTree_Insert GetMinSize t transaction key val =
     do {
       (t0, tx0, found) \<leftarrow> FindLeafPage GetMinSize t transaction key INSERT;
       (t1, tx1, leaf_page) \<leftarrow> find_or_start GetMinSize t0 tx0 key found;
       leaf_node \<leftarrow> pool_pages t1 leaf_page;
       let index = LeafPage_KeyIndex (comparator t1) leaf_node key;
       let (res, leaf_node1) = LeafPage_Insert (comparator t1) leaf_node (key, val) index;
       if \<not> res then Some (False, UnlockAndUnpin t1 tx1)
       else do {
         t2 \<leftarrow> update_page t1 leaf_page (\<lambda>_. leaf_node1);
         (t3, tx3) \<leftarrow>
           (if node_size leaf_node1 = leaf_max_size t2
            then do {
              let (brother_page, t21) = NewPage t2;
              t22 \<leftarrow> update_page t21 brother_page
                       (\<lambda>n. LeafPage_Init n brother_page INVALID_PAGE_ID (leaf_max_size t21));
              brother_node \<leftarrow> pool_pages t22 brother_page;
              let (leaf_node2, brother_node2) = LeafPage_Split leaf_node1 brother_node brother_page;
              t23 \<leftarrow> update_page t22 leaf_page (\<lambda>_. leaf_node2);
              t24 \<leftarrow> update_page t23 brother_page (\<lambda>_. brother_node2);
              t25 \<leftarrow> InsertInParent t24 leaf_page (fst (leaf_array brother_node2 0)) brother_page;
              Some (UnlockAndUnpin (UnpinPage t25 brother_page) tx1)
            }
            else Some (t2, tx1));
         Some (True, UnlockAndUnpin t3 tx3)
       }
     }"




declare descend.simps [code]
declare InsertInParent.simps [code]
declare find_or_start.simps [code]

subsection \<open>Observing a tree\<close>

text \<open>
  The keys of a page (an internal page does not use the key at index 0), its children,
  the shape of the tree below a page, and the chain of leaves from a leaf on; the
  number bounds the depth and the length.
\<close>

definition keys_of :: "('k, 'v) BPlusTreePage \<Rightarrow> 'k list" where
  "keys_of p =
     (if IsLeafPage p then map (\<lambda>i. fst (leaf_array p i)) [0..node_size p - 1]
      else map (\<lambda>i. fst (internal_array p i)) [1..node_size p - 1])"

definition children_of :: "('k, 'v) BPlusTreePage \<Rightarrow> int list" where
  "children_of p = map (\<lambda>i. snd (internal_array p i)) [0..node_size p - 1]"

datatype 'k shape = Missing | Leaf "'k list" | Node "'k list" "'k shape list"

fun shape_below :: "nat \<Rightarrow> ('k, 'v) BPlusTree \<Rightarrow> int \<Rightarrow> 'k shape" where
  "shape_below 0 t pid = Missing"
| "shape_below (Suc n) t pid =
     (case pool_pages t pid of
        None \<Rightarrow> Missing
      | Some p \<Rightarrow> if IsLeafPage p then Leaf (keys_of p)
                  else Node (keys_of p) (map (shape_below n t) (children_of p)))"

fun leaf_chain :: "nat \<Rightarrow> ('k, 'v) BPlusTree \<Rightarrow> int \<Rightarrow> 'k list list" where
  "leaf_chain 0 t pid = []"
| "leaf_chain (Suc n) t pid =
     (case pool_pages t pid of
        None \<Rightarrow> []
      | Some p \<Rightarrow> keys_of p # leaf_chain n t (node_next_page_id p))"

fun leftmost_leaf :: "nat \<Rightarrow> ('k, 'v) BPlusTree \<Rightarrow> int \<Rightarrow> int" where
  "leftmost_leaf 0 t pid = pid"
| "leftmost_leaf (Suc n) t pid =
     (case pool_pages t pid of
        None \<Rightarrow> pid
      | Some p \<Rightarrow> if IsLeafPage p then pid else leftmost_leaf n t (snd (internal_array p 0)))"

definition BPlusTree_shape :: "('k, 'v) BPlusTree \<times> Transaction option \<Rightarrow> 'k shape" where
  "BPlusTree_shape s = shape_below 8 (fst s) (root_page_id (fst s))"

definition BPlusTree_leaves :: "('k, 'v) BPlusTree \<times> Transaction option \<Rightarrow> 'k list list" where
  "BPlusTree_leaves s = leaf_chain 8 (fst s) (leftmost_leaf 8 (fst s) (root_page_id (fst s)))"

subsection \<open>Scenarios\<close>

text \<open>
  The keys are integers compared by \<open>GenericComparator\<close> (generic\_key.h, not among the
  sources: negative, zero or positive as the first key is below, equal to or above the
  second).

  Modelled from the spec: \<open>GetMinSize\<close> of a page is \<open>ceil((max - 1) / 2)\<close> for a leaf and
  \<open>ceil(max / 2)\<close> for an internal page, \<open>max\<close> the maximum size of the page. The
  scenarios pass it for the parameter \<open>GetMinSize\<close>; inserts and lookups do not read it.
  For \<open>IsRootPage\<close> they pass the test that the page is an internal page, which is how
  \<open>DeleteEntry\<close> uses it when it chooses between the code for internal pages and the
  code for leaves.
\<close>

definition GenericComparator :: "int \<Rightarrow> int \<Rightarrow> int" where
  "GenericComparator a b = (if a < b then - 1 else if a = b then 0 else 1)"

definition GetMinSize_spec :: "('k, 'v) BPlusTreePage \<Rightarrow> int" where
  "GetMinSize_spec p =
     (if IsLeafPage p then node_max_size p div 2 else (node_max_size p + 1) div 2)"



fun insert_all ::
  "('k::zero, 'v::zero) BPlusTree \<times> Transaction option \<Rightarrow> ('k \<times> 'v) list
     \<Rightarrow> (('k, 'v) BPlusTree \<times> Transaction option) option" where
  "insert_all s [] = Some s"
| "insert_all s (kv # rest) =
     (case BPlusTree_Insert GetMinSize_spec (fst s) (snd s) (fst kv) (snd kv) of
        None \<Rightarrow> None
      | Some r \<Rightarrow> insert_all (snd r) rest)"

definition lookup ::
  "(('k, 'v) BPlusTree \<times> Transaction option) option \<Rightarrow> 'k \<Rightarrow> (bool \<times> 'v list) option" where
  "lookup s key =
     (case s of
        None \<Rightarrow> None
      | Some s \<Rightarrow> map_option (\<lambda>r. (fst r, fst (snd r)))
                   (GetValue GetMinSize_spec (fst s) (snd s) key []))"

text \<open>
  A tree with \<open>leaf_max_size = 3\<close> and \<open>internal_max_size = 3\<close> on a pool whose next page
  id is 1, and a transaction with empty page sets.
\<close>

definition tree_3_3 :: "(int, int) BPlusTree \<times> Transaction option" where
  "tree_3_3 =
     (BPlusTree_new GenericComparator 3 3 1, Some \<lparr>page_set = [], deleted_page_set = []\<rparr>)"

definition scenario_S5 :: "((int, int) BPlusTree \<times> Transaction option) option" where
  "scenario_S5 = insert_all tree_3_3 [(1, 10), (2, 20), (3, 30), (4, 40), (5, 50)]"







section \<open>Extendible hash table: proofs\<close>

lemma IndexOf_mod: "IndexOf h t key = h key mod 2 ^ global_depth t"
proof -
  have "push_bit (global_depth t) (1::nat) - 1 = mask (global_depth t)"
    by (simp add: mask_eq_exp_minus_1 push_bit_eq_mult)
  then show ?thesis
    by (simp add: IndexOf_def flip: take_bit_eq_mask take_bit_eq_mod)
qed

lemma and_push_bit_1: "((x::nat) AND push_bit L 1 \<noteq> 0) = bit x L"
  by (simp add: push_bit_eq_mult and_exp_eq_0_iff_not_bit)

lemma mod_Suc_bit: "(x::nat) mod 2 ^ Suc L = x mod 2 ^ L + (if bit x L then 2 ^ L else 0)"
  using take_bit_Suc_from_most[of L x] by (simp add: take_bit_eq_mod)

lemma mod_Suc_eq_iff:
  "((x::nat) mod 2 ^ Suc L = y mod 2 ^ Suc L) = (x mod 2 ^ L = y mod 2 ^ L \<and> bit x L = bit y L)"
proof -
  define a b p where "a = x mod 2 ^ L" and "b = y mod 2 ^ L" and "p = (2::nat) ^ L"
  have lt: "a < p" "b < p" by (simp_all add: a_def b_def p_def)
  have ex: "x mod 2 ^ Suc L = a + (if bit x L then p else 0)"
    unfolding a_def p_def by (fact mod_Suc_bit)
  have ey: "y mod 2 ^ Suc L = b + (if bit y L then p else 0)"
    unfolding b_def p_def by (fact mod_Suc_bit)
  show ?thesis unfolding ex ey a_def [symmetric] b_def [symmetric] using lt
    by auto
qed

lemma bit_mod_pow2: "L < G \<Longrightarrow> bit ((x::nat) mod 2 ^ G) L = bit x L"
  by (simp add: bit_take_bit_iff flip: take_bit_eq_mod)

lemma mod_mod_pow2: "L \<le> G \<Longrightarrow> ((x::nat) mod 2 ^ G) mod 2 ^ L = x mod 2 ^ L"
  by (simp add: mod_mod_cancel le_imp_power_dvd)

lemma fold_copy_nth:
  "n \<le> c \<Longrightarrow> length d = c + c \<Longrightarrow> i < c + c \<Longrightarrow>
   fold (\<lambda>inx d'. d'[c + inx := d' ! inx]) [0..<n] d ! i
     = (if c \<le> i \<and> i < c + n then d ! (i - c) else d ! i)"
proof (induction n arbitrary: i)
  case 0
  then show ?case by auto
next
  case (Suc n)
  have len: "length (fold (\<lambda>inx d'. d'[c + inx := d' ! inx]) [0..<n] d) = c + c"
    using Suc.prems(2) by (induction n) simp_all
  show ?case using Suc len by (auto simp: nth_list_update)
qed

lemma fold_copy_length:
  "length (fold (\<lambda>inx d'. d'[c + inx := d' ! inx]) [0..<n] d) = length d"
  by (induction n) simp_all

lemma double_dir_eq: "double_dir d = d @ d"
proof (rule nth_equalityI)
  show "length (double_dir d) = length (d @ d)"
    by (simp add: double_dir_def Let_def fold_copy_length)
next
  fix i assume "i < length (double_dir d)"
  then have i: "i < length d + length d"
    by (simp add: double_dir_def Let_def fold_copy_length)
  then show "double_dir d ! i = (d @ d) ! i"
    by (auto simp: double_dir_def Let_def fold_copy_nth nth_append)
qed

lemma redirect_fold_length:
  "length (fold (\<lambda>i d'. if d' ! i = tg then (if i AND m \<noteq> 0 then d'[i := a1] else d'[i := a0]) else d') [0..<n] d) = length d"
  by (induction n) simp_all

lemma redirect_fold_nth:
  "n \<le> length d \<Longrightarrow> i < length d \<Longrightarrow>
   fold (\<lambda>i d'. if d' ! i = tg then (if i AND m \<noteq> 0 then d'[i := a1] else d'[i := a0]) else d') [0..<n] d ! i
     = (if i < n \<and> d ! i = tg then (if i AND m \<noteq> 0 then a1 else a0) else d ! i)"
proof (induction n arbitrary: i)
  case 0
  then show ?case by simp
next
  case (Suc n)
  then show ?case
    by (auto simp: nth_list_update redirect_fold_length)
qed

lemma redirect_length: "length (redirect d tg m a0 a1) = length d"
  by (simp add: redirect_def redirect_fold_length)

lemma redirect_nth:
  "i < length d \<Longrightarrow> redirect d tg m a0 a1 ! i
     = (if d ! i = tg then (if i AND m \<noteq> 0 then a1 else a0) else d ! i)"
  by (simp add: redirect_def redirect_fold_nth)

lemma dir_invD:
  assumes "dir_inv t" "i < length (dir t)"
  shows "dir t ! i < next_addr t"
    and "b_depth (heap t (dir t ! i)) \<le> global_depth t"
    and "j < length (dir t) \<Longrightarrow> (dir t ! j = dir t ! i) =
            (j mod 2 ^ b_depth (heap t (dir t ! i)) = i mod 2 ^ b_depth (heap t (dir t ! i)))"
    and "length (dir t) = 2 ^ global_depth t"
  using assms by (auto simp: dir_inv_def)

lemma dir_invI:
  assumes "length (dir t) = 2 ^ global_depth t"
    and "\<And>i. i < length (dir t) \<Longrightarrow> dir t ! i < next_addr t"
    and "\<And>i. i < length (dir t) \<Longrightarrow> b_depth (heap t (dir t ! i)) \<le> global_depth t"
    and "\<And>i j. i < length (dir t) \<Longrightarrow> j < length (dir t) \<Longrightarrow> (dir t ! j = dir t ! i) =
            (j mod 2 ^ b_depth (heap t (dir t ! i)) = i mod 2 ^ b_depth (heap t (dir t ! i)))"
  shows "dir_inv t"
  using assms unfolding dir_inv_def by simp

lemma nth_append_self:
  assumes "length d = n" "i < n + n"
  shows "(d @ d) ! i = d ! (i mod n)"
proof (cases "i < n")
  case True
  then show ?thesis using assms by (simp add: nth_append)
next
  case False
  then have "i mod n = i - n" using assms(2)
    by (simp add: mod_if)
  then show ?thesis using False assms by (simp add: nth_append)
qed

lemma IndexOf_less: "dir_inv t \<Longrightarrow> IndexOf h t key < length (dir t)"
  by (simp add: IndexOf_mod dir_inv_def)

lemma grow_dir_inv:
  assumes "dir_inv t"
  shows "dir_inv (t\<lparr>dir := dir t @ dir t, global_depth := Suc (global_depth t)\<rparr>)"
proof (rule dir_invI)
  let ?t = "t\<lparr>dir := dir t @ dir t, global_depth := Suc (global_depth t)\<rparr>"
  let ?n = "2 ^ global_depth t :: nat"
  have len: "length (dir t) = ?n" using assms by (simp add: dir_inv_def)
  show "length (dir ?t) = 2 ^ global_depth ?t" using len by simp
  have nth: "dir ?t ! i = dir t ! (i mod ?n)" if "i < length (dir ?t)" for i
    using that len nth_append_self[of "dir t" ?n i] by simp
  have lt: "i mod ?n < length (dir t)" for i using len by simp
  show "dir ?t ! i < next_addr ?t" if "i < length (dir ?t)" for i
    using dir_invD(1)[OF assms lt[of i]] nth[OF that] by simp
  show "b_depth (heap ?t (dir ?t ! i)) \<le> global_depth ?t" if "i < length (dir ?t)" for i
    using dir_invD(2)[OF assms lt[of i]] nth[OF that] by simp
  show "(dir ?t ! j = dir ?t ! i) =
        (j mod 2 ^ b_depth (heap ?t (dir ?t ! i)) = i mod 2 ^ b_depth (heap ?t (dir ?t ! i)))"
    if "i < length (dir ?t)" "j < length (dir ?t)" for i j
  proof -
    let ?L = "b_depth (heap t (dir t ! (i mod ?n)))"
    have L: "?L \<le> global_depth t" using dir_invD(2)[OF assms lt[of i]] .
    have "(dir t ! (j mod ?n) = dir t ! (i mod ?n)) = ((j mod ?n) mod 2 ^ ?L = (i mod ?n) mod 2 ^ ?L)"
      using dir_invD(3)[OF assms lt[of i] lt[of j]] .
    then show ?thesis using nth[OF that(1)] nth[OF that(2)] L by (simp add: mod_mod_pow2)
  qed
qed

lemma mod_double_eq_iff:
  "((x::nat) mod (2 * 2 ^ L) = y mod (2 * 2 ^ L)) = (x mod 2 ^ L = y mod 2 ^ L \<and> bit x L = bit y L)"
  using mod_Suc_eq_iff[of x L y] by simp

lemma redirect_dir_inv:
  assumes inv: "dir_inv t"
    and idx: "idx < length (dir t)"
    and L: "b_depth (heap t (dir t ! idx)) = L" "L < global_depth t"
    and b0: "b_depth b0 = Suc L" and b1: "b_depth b1 = Suc L"
  shows "dir_inv (t\<lparr>num_buckets := n,
            dir := redirect (dir t) (dir t ! idx) (push_bit L 1) (next_addr t) (next_addr t + 1),
            heap := (heap t)(next_addr t := b0, next_addr t + 1 := b1),
            next_addr := next_addr t + 2\<rparr>)"
proof (rule dir_invI)
  let ?tg = "dir t ! idx"
  let ?a0 = "next_addr t" and ?a1 = "next_addr t + 1"
  let ?t = "t\<lparr>num_buckets := n,
            dir := redirect (dir t) ?tg (push_bit L 1) ?a0 ?a1,
            heap := (heap t)(?a0 := b0, ?a1 := b1),
            next_addr := next_addr t + 2\<rparr>"
  have len: "length (dir ?t) = length (dir t)" by (simp add: redirect_length)
  show "length (dir ?t) = 2 ^ global_depth ?t"
    using dir_invD(4)[OF inv idx] by (simp add: redirect_length)
  have nth: "dir ?t ! i = (if dir t ! i = ?tg then (if bit i L then ?a1 else ?a0) else dir t ! i)"
    if "i < length (dir t)" for i
  proof -
    have "dir ?t ! i = redirect (dir t) ?tg (push_bit L 1) ?a0 ?a1 ! i" by simp
    also have "\<dots> = (if dir t ! i = ?tg then (if bit i L then ?a1 else ?a0) else dir t ! i)"
      unfolding redirect_nth[OF that] and_push_bit_1 ..
    finally show ?thesis .
  qed
  have old: "dir t ! i < next_addr t" if "i < length (dir t)" for i
    using dir_invD(1)[OF inv that] .
  show "dir ?t ! i < next_addr ?t" if "i < length (dir ?t)" for i
    using that old[of i] nth[of i] len by auto
  show "b_depth (heap ?t (dir ?t ! i)) \<le> global_depth ?t" if "i < length (dir ?t)" for i
    using that old[of i] nth[of i] len dir_invD(2)[OF inv, of i] L b0 b1 by auto
  show "(dir ?t ! j = dir ?t ! i) =
        (j mod 2 ^ b_depth (heap ?t (dir ?t ! i)) = i mod 2 ^ b_depth (heap ?t (dir ?t ! i)))"
    if "i < length (dir ?t)" "j < length (dir ?t)" for i j
  proof -
    have i: "i < length (dir t)" and j: "j < length (dir t)" using that len by simp_all
    have tgi: "(dir t ! i = ?tg) = (i mod 2 ^ L = idx mod 2 ^ L)"
      using dir_invD(3)[OF inv idx i] L by simp
    have tgj: "(dir t ! j = ?tg) = (j mod 2 ^ L = idx mod 2 ^ L)"
      using dir_invD(3)[OF inv idx j] L by simp
    show ?thesis
    proof (cases "dir t ! i = ?tg")
      case True
      then show ?thesis
        using nth[OF i] nth[OF j] old[OF j] tgi tgj b0 b1
        by (auto simp: mod_double_eq_iff)
    next
      case False
      then show ?thesis
        using nth[OF i] nth[OF j] old[OF i] old[OF j] dir_invD(3)[OF inv i j] tgi tgj
        by (auto simp: mod_double_eq_iff)
    qed
  qed
qed

lemma items_invD:
  assumes "items_inv h t" "i < length (dir t)"
  shows "b_size (heap t (dir t ! i)) = bucket_size t"
    and "length (b_list (heap t (dir t ! i))) \<le> bucket_size t"
    and "distinct (map fst (b_list (heap t (dir t ! i))))"
    and "it \<in> set (b_list (heap t (dir t ! i))) \<Longrightarrow>
           h (fst it) mod 2 ^ b_depth (heap t (dir t ! i)) = i mod 2 ^ b_depth (heap t (dir t ! i))"
  using assms by (auto simp: items_inv_def)

lemma items_invI:
  assumes "\<And>i. i < length (dir t) \<Longrightarrow> b_size (heap t (dir t ! i)) = bucket_size t"
    and "\<And>i. i < length (dir t) \<Longrightarrow> length (b_list (heap t (dir t ! i))) \<le> bucket_size t"
    and "\<And>i. i < length (dir t) \<Longrightarrow> distinct (map fst (b_list (heap t (dir t ! i))))"
    and "\<And>i it. i < length (dir t) \<Longrightarrow> it \<in> set (b_list (heap t (dir t ! i))) \<Longrightarrow>
           h (fst it) mod 2 ^ b_depth (heap t (dir t ! i)) = i mod 2 ^ b_depth (heap t (dir t ! i))"
  shows "items_inv h t"
  using assms unfolding items_inv_def by simp

lemma Bucket_Insert_fields [simp]:
  "b_depth (snd (Bucket_Insert b k v)) = b_depth b"
  "b_size (snd (Bucket_Insert b k v)) = b_size b"
  by (simp_all add: Bucket_Insert_def)

lemma distribute_fields:
  "b_depth (fst (distribute h m xs (b0, b1))) = b_depth b0"
  "b_depth (snd (distribute h m xs (b0, b1))) = b_depth b1"
  "b_size (fst (distribute h m xs (b0, b1))) = b_size b0"
  "b_size (snd (distribute h m xs (b0, b1))) = b_size b1"
  by (induction xs arbitrary: b0 b1; simp add: Let_def)+

lemma distribute_lists:
  assumes "distinct (map fst xs)"
    and "fst ` set xs \<inter> fst ` set (b_list b0) = {}"
    and "fst ` set xs \<inter> fst ` set (b_list b1) = {}"
    and "length (b_list b0) + length xs \<le> b_size b0"
    and "length (b_list b1) + length xs \<le> b_size b1"
  shows "distribute h m xs (b0, b1) =
           (b0\<lparr>b_list := b_list b0 @ filter (\<lambda>it. \<not> (h (fst it) AND m \<noteq> 0)) xs\<rparr>,
            b1\<lparr>b_list := b_list b1 @ filter (\<lambda>it. h (fst it) AND m \<noteq> 0) xs\<rparr>)"
  using assms
proof (induction xs arbitrary: b0 b1)
  case Nil
  then show ?case by simp
next
  case (Cons x xs)
  show ?case
  proof (cases "h (fst x) AND m \<noteq> 0")
    case True
    have ins: "snd (Bucket_Insert b1 (fst x) (snd x)) = b1\<lparr>b_list := b_list b1 @ [x]\<rparr>"
      using Cons.prems by (auto simp: Bucket_Insert_def IsFull_def)
    have "distribute h m xs (b0, b1\<lparr>b_list := b_list b1 @ [x]\<rparr>) =
           (b0\<lparr>b_list := b_list b0 @ filter (\<lambda>it. \<not> (h (fst it) AND m \<noteq> 0)) xs\<rparr>,
            (b1\<lparr>b_list := b_list b1 @ [x]\<rparr>)\<lparr>b_list := b_list (b1\<lparr>b_list := b_list b1 @ [x]\<rparr>) @ filter (\<lambda>it. h (fst it) AND m \<noteq> 0) xs\<rparr>)"
      using Cons.prems by (intro Cons.IH) auto
    then show ?thesis using True ins by (simp add: Let_def)
  next
    case False
    have ins: "snd (Bucket_Insert b0 (fst x) (snd x)) = b0\<lparr>b_list := b_list b0 @ [x]\<rparr>"
      using Cons.prems by (auto simp: Bucket_Insert_def IsFull_def)
    have "distribute h m xs (b0\<lparr>b_list := b_list b0 @ [x]\<rparr>, b1) =
           ((b0\<lparr>b_list := b_list b0 @ [x]\<rparr>)\<lparr>b_list := b_list (b0\<lparr>b_list := b_list b0 @ [x]\<rparr>) @ filter (\<lambda>it. \<not> (h (fst it) AND m \<noteq> 0)) xs\<rparr>,
            b1\<lparr>b_list := b_list b1 @ filter (\<lambda>it. h (fst it) AND m \<noteq> 0) xs\<rparr>)"
      using Cons.prems by (intro Cons.IH) auto
    then show ?thesis using False ins by (simp add: Let_def)
  qed
qed

lemma distribute_new:
  assumes "distinct (map fst xs)" "length xs \<le> bs"
  shows "distribute h (push_bit L 1) xs (Bucket_new bs d, Bucket_new bs d) =
           (\<lparr>b_size = bs, b_depth = d, b_list = filter (\<lambda>it. \<not> bit (h (fst it)) L) xs\<rparr>,
            \<lparr>b_size = bs, b_depth = d, b_list = filter (\<lambda>it. bit (h (fst it)) L) xs\<rparr>)"
  using distribute_lists[of xs "Bucket_new bs d" "Bucket_new bs d" h "push_bit L 1"] assms
  unfolding and_push_bit_1 by (simp add: Bucket_new_def)

lemma split_bucket_eq:
  "split_bucket h key t =
     (let tg = dir t ! IndexOf h t key;
          L = b_depth (heap t tg);
          t1 = (if global_depth t = L
                then t\<lparr>dir := dir t @ dir t, global_depth := Suc (global_depth t)\<rparr> else t);
          bs = distribute h (push_bit L 1) (b_list (heap t tg))
                 (Bucket_new (bucket_size t) (Suc L), Bucket_new (bucket_size t) (Suc L))
      in t1\<lparr>num_buckets := (if b_list (snd bs) \<noteq> [] \<and> b_list (fst bs) \<noteq> []
                              then num_buckets t + 1 else num_buckets t),
            dir := redirect (dir t1) tg (push_bit L 1) (next_addr t1) (next_addr t1 + 1),
            heap := (heap t1)(next_addr t1 := fst bs, next_addr t1 + 1 := snd bs),
            next_addr := next_addr t1 + 2\<rparr>)"
  by (simp add: split_bucket_def Let_def double_dir_eq split: prod.splits)

lemma grow_items_inv:
  assumes "dir_inv t" "items_inv h t"
  shows "items_inv h (t\<lparr>dir := dir t @ dir t, global_depth := Suc (global_depth t)\<rparr>)"
proof (rule items_invI)
  let ?t = "t\<lparr>dir := dir t @ dir t, global_depth := Suc (global_depth t)\<rparr>"
  let ?n = "2 ^ global_depth t :: nat"
  have len: "length (dir t) = ?n" using assms by (simp add: dir_inv_def)
  have nth: "dir ?t ! i = dir t ! (i mod ?n)" if "i < length (dir ?t)" for i
    using that len nth_append_self[of "dir t" ?n i] by simp
  have lt: "i mod ?n < length (dir t)" for i using len by simp
  show "b_size (heap ?t (dir ?t ! i)) = bucket_size ?t" if "i < length (dir ?t)" for i
    using items_invD(1)[OF assms(2) lt[of i]] nth[OF that] by simp
  show "length (b_list (heap ?t (dir ?t ! i))) \<le> bucket_size ?t" if "i < length (dir ?t)" for i
    using items_invD(2)[OF assms(2) lt[of i]] nth[OF that] by simp
  show "distinct (map fst (b_list (heap ?t (dir ?t ! i))))" if "i < length (dir ?t)" for i
    using items_invD(3)[OF assms(2) lt[of i]] nth[OF that] by simp
  show "h (fst it) mod 2 ^ b_depth (heap ?t (dir ?t ! i)) = i mod 2 ^ b_depth (heap ?t (dir ?t ! i))"
    if "i < length (dir ?t)" "it \<in> set (b_list (heap ?t (dir ?t ! i)))" for i it
  proof -
    let ?L = "b_depth (heap t (dir t ! (i mod ?n)))"
    have L: "?L \<le> global_depth t" using dir_invD(2)[OF assms(1) lt[of i]] .
    have "it \<in> set (b_list (heap t (dir t ! (i mod ?n))))" using that nth[OF that(1)] by simp
    from items_invD(4)[OF assms(2) lt[of i] this]
    show ?thesis using nth[OF that(1)] L by (simp add: mod_mod_pow2)
  qed
qed

lemma redirect_items_inv:
  assumes inv: "dir_inv t" and items: "items_inv h t"
    and idx: "idx < length (dir t)"
    and L: "b_depth (heap t (dir t ! idx)) = L"
    and b0: "b0 = \<lparr>b_size = bucket_size t, b_depth = Suc L,
                   b_list = filter (\<lambda>it. \<not> bit (h (fst it)) L) (b_list (heap t (dir t ! idx)))\<rparr>"
    and b1: "b1 = \<lparr>b_size = bucket_size t, b_depth = Suc L,
                   b_list = filter (\<lambda>it. bit (h (fst it)) L) (b_list (heap t (dir t ! idx)))\<rparr>"
  shows "items_inv h (t\<lparr>num_buckets := n,
            dir := redirect (dir t) (dir t ! idx) (push_bit L 1) (next_addr t) (next_addr t + 1),
            heap := (heap t)(next_addr t := b0, next_addr t + 1 := b1),
            next_addr := next_addr t + 2\<rparr>)"
proof (rule items_invI)
  let ?tg = "dir t ! idx"
  let ?a0 = "next_addr t" and ?a1 = "next_addr t + 1"
  let ?t = "t\<lparr>num_buckets := n,
            dir := redirect (dir t) ?tg (push_bit L 1) ?a0 ?a1,
            heap := (heap t)(?a0 := b0, ?a1 := b1),
            next_addr := next_addr t + 2\<rparr>"
  have len: "length (dir ?t) = length (dir t)" by (simp add: redirect_length)
  have nth: "dir ?t ! i = (if dir t ! i = ?tg then (if bit i L then ?a1 else ?a0) else dir t ! i)"
    if "i < length (dir t)" for i
  proof -
    have "dir ?t ! i = redirect (dir t) ?tg (push_bit L 1) ?a0 ?a1 ! i" by simp
    also have "\<dots> = (if dir t ! i = ?tg then (if bit i L then ?a1 else ?a0) else dir t ! i)"
      unfolding redirect_nth[OF that] and_push_bit_1 ..
    finally show ?thesis .
  qed
  have old: "dir t ! i < next_addr t" if "i < length (dir t)" for i
    using dir_invD(1)[OF inv that] .
  have bucket: "heap ?t (dir ?t ! i) =
      (if dir t ! i = ?tg then (if bit i L then b1 else b0) else heap t (dir t ! i))"
    if "i < length (dir t)" for i
    using nth[OF that] old[OF that] by auto
  have tl: "length (b_list (heap t ?tg)) \<le> bucket_size t"
    using items_invD(2)[OF items idx] .
  have td: "distinct (map fst (b_list (heap t ?tg)))"
    using items_invD(3)[OF items idx] .
  show "b_size (heap ?t (dir ?t ! i)) = bucket_size ?t" if "i < length (dir ?t)" for i
    using that len bucket[of i] items_invD(1)[OF items, of i] b0 b1 by auto
  show "length (b_list (heap ?t (dir ?t ! i))) \<le> bucket_size ?t" if "i < length (dir ?t)" for i
  proof -
    have "length (filter P (b_list (heap t ?tg))) \<le> bucket_size t" for P
      using tl length_filter_le[of P "b_list (heap t ?tg)"] by linarith
    then show ?thesis
      using that len bucket[of i] items_invD(2)[OF items, of i] b0 b1 by auto
  qed
  show "distinct (map fst (b_list (heap ?t (dir ?t ! i))))" if "i < length (dir ?t)" for i
    using that len bucket[of i] items_invD(3)[OF items, of i] b0 b1 td
    by (auto simp: distinct_map_filter)
  show "h (fst it) mod 2 ^ b_depth (heap ?t (dir ?t ! i)) = i mod 2 ^ b_depth (heap ?t (dir ?t ! i))"
    if "i < length (dir ?t)" "it \<in> set (b_list (heap ?t (dir ?t ! i)))" for i it
  proof -
    have i: "i < length (dir t)" using that len by simp
    show ?thesis
    proof (cases "dir t ! i = ?tg")
      case True
      have "it \<in> set (b_list (heap t (dir t ! i)))" "bit (h (fst it)) L = bit i L"
        using that(2) bucket[OF i] True b0 b1 by (auto split: if_splits)
      moreover from items_invD(4)[OF items i this(1)]
      have "h (fst it) mod 2 ^ L = i mod 2 ^ L" using True L by simp
      ultimately show ?thesis using bucket[OF i] True b0 b1
        by (auto simp: mod_double_eq_iff)
    next
      case False
      then show ?thesis using that(2) bucket[OF i] items_invD(4)[OF items i, of it] by simp
    qed
  qed
qed

lemma if_pred: "P a \<Longrightarrow> P b \<Longrightarrow> P (if c then a else b)"
  by simp

lemma split_bucket_shape:
  assumes inv: "dir_inv t" and items: "items_inv h t"
  obtains t1 n where
    "dir_inv t1" "items_inv h t1"
    "IndexOf h t key < length (dir t1)"
    "dir t1 ! IndexOf h t key = dir t ! IndexOf h t key"
    "heap t1 = heap t" "next_addr t1 = next_addr t" "bucket_size t1 = bucket_size t"
    "b_depth (heap t (dir t ! IndexOf h t key)) < global_depth t1"
    "global_depth t \<le> global_depth t1"
    "global_depth t1 = (if global_depth t = b_depth (heap t (dir t ! IndexOf h t key))
                        then Suc (global_depth t) else global_depth t)"
    "\<forall>i < length (dir t1). dir t1 ! i = dir t ! (i mod 2 ^ global_depth t)"
    "split_bucket h key t =
       t1\<lparr>num_buckets := n,
          dir := redirect (dir t1) (dir t1 ! IndexOf h t key)
                   (push_bit (b_depth (heap t (dir t ! IndexOf h t key))) 1)
                   (next_addr t1) (next_addr t1 + 1),
          heap := (heap t1)
            (next_addr t1 := \<lparr>b_size = bucket_size t1,
                 b_depth = Suc (b_depth (heap t (dir t ! IndexOf h t key))),
                 b_list = filter (\<lambda>it. \<not> bit (h (fst it)) (b_depth (heap t (dir t ! IndexOf h t key))))
                            (b_list (heap t1 (dir t1 ! IndexOf h t key)))\<rparr>,
             next_addr t1 + 1 := \<lparr>b_size = bucket_size t1,
                 b_depth = Suc (b_depth (heap t (dir t ! IndexOf h t key))),
                 b_list = filter (\<lambda>it. bit (h (fst it)) (b_depth (heap t (dir t ! IndexOf h t key))))
                            (b_list (heap t1 (dir t1 ! IndexOf h t key)))\<rparr>),
          next_addr := next_addr t1 + 2\<rparr>"
proof -
  let ?idx = "IndexOf h t key"
  let ?tg = "dir t ! ?idx"
  let ?L = "b_depth (heap t ?tg)"
  let ?t1 = "if global_depth t = ?L
             then t\<lparr>dir := dir t @ dir t, global_depth := Suc (global_depth t)\<rparr> else t"
  have idx: "?idx < length (dir t)" using inv by (rule IndexOf_less)
  have L: "?L \<le> global_depth t" using dir_invD(2)[OF inv idx] .
  have d: "distribute h (push_bit ?L 1) (b_list (heap t ?tg))
             (Bucket_new (bucket_size t) (Suc ?L), Bucket_new (bucket_size t) (Suc ?L)) =
           (\<lparr>b_size = bucket_size t, b_depth = Suc ?L,
              b_list = filter (\<lambda>it. \<not> bit (h (fst it)) ?L) (b_list (heap t ?tg))\<rparr>,
            \<lparr>b_size = bucket_size t, b_depth = Suc ?L,
              b_list = filter (\<lambda>it. bit (h (fst it)) ?L) (b_list (heap t ?tg))\<rparr>)"
    using items_invD(2,3)[OF items idx] by (intro distribute_new) simp_all
  have 1: "dir_inv ?t1"
    by (rule if_pred[where P = dir_inv, OF grow_dir_inv[OF inv] inv])
  have 2: "items_inv h ?t1"
    by (rule if_pred[where P = "items_inv h", OF grow_items_inv[OF inv items] items])
  have 3: "?idx < length (dir ?t1)" using idx by simp
  have 4: "dir ?t1 ! ?idx = ?tg" using idx by (simp add: nth_append)
  have 5: "heap ?t1 = heap t" "next_addr ?t1 = next_addr t" "bucket_size ?t1 = bucket_size t"
    by simp_all
  have 6: "?L < global_depth ?t1" using L by simp
  have 7: "global_depth t \<le> global_depth ?t1" by simp
  have 8: "global_depth ?t1 = (if global_depth t = ?L then Suc (global_depth t) else global_depth t)"
    by simp
  have len: "length (dir t) = 2 ^ global_depth t" using inv by (simp add: dir_inv_def)
  have 9: "\<forall>i < length (dir ?t1). dir ?t1 ! i = dir t ! (i mod 2 ^ global_depth t)"
    using len nth_append_self[OF len] by simp
  show ?thesis
    apply (rule that[OF 1 2 3 4 5 6 7 8 9])
    apply (subst split_bucket_eq)
    apply (simp only: Let_def d fst_conv snd_conv 4 5)
    done
qed


lemma split_bucket_inv:
  assumes inv: "dir_inv t" and items: "items_inv h t"
  shows "dir_inv (split_bucket h key t)" and "items_inv h (split_bucket h key t)"
proof -
  obtain t1 n where t1: "dir_inv t1" "items_inv h t1"
    "IndexOf h t key < length (dir t1)"
    "dir t1 ! IndexOf h t key = dir t ! IndexOf h t key"
    "heap t1 = heap t"
    "b_depth (heap t (dir t ! IndexOf h t key)) < global_depth t1"
    and eq: "split_bucket h key t =
       t1\<lparr>num_buckets := n,
          dir := redirect (dir t1) (dir t1 ! IndexOf h t key)
                   (push_bit (b_depth (heap t (dir t ! IndexOf h t key))) 1)
                   (next_addr t1) (next_addr t1 + 1),
          heap := (heap t1)
            (next_addr t1 := \<lparr>b_size = bucket_size t1,
                 b_depth = Suc (b_depth (heap t (dir t ! IndexOf h t key))),
                 b_list = filter (\<lambda>it. \<not> bit (h (fst it)) (b_depth (heap t (dir t ! IndexOf h t key))))
                            (b_list (heap t1 (dir t1 ! IndexOf h t key)))\<rparr>,
             next_addr t1 + 1 := \<lparr>b_size = bucket_size t1,
                 b_depth = Suc (b_depth (heap t (dir t ! IndexOf h t key))),
                 b_list = filter (\<lambda>it. bit (h (fst it)) (b_depth (heap t (dir t ! IndexOf h t key))))
                            (b_list (heap t1 (dir t1 ! IndexOf h t key)))\<rparr>),
          next_addr := next_addr t1 + 2\<rparr>"
    using split_bucket_shape[OF inv items, of key] by metis
  have L: "b_depth (heap t1 (dir t1 ! IndexOf h t key)) = b_depth (heap t (dir t ! IndexOf h t key))"
    using t1(4,5) by simp
  show "dir_inv (split_bucket h key t)"
    unfolding eq by (rule redirect_dir_inv[OF t1(1) t1(3) L t1(6)]) simp_all
  show "items_inv h (split_bucket h key t)"
    unfolding eq by (rule redirect_items_inv[OF t1(1) t1(2) t1(3) L]) simp_all
qed

lemma split_bucket_target:
  assumes inv: "dir_inv t" and items: "items_inv h t"
  shows "heap (split_bucket h key t) (dir (split_bucket h key t) ! IndexOf h (split_bucket h key t) key) =
           \<lparr>b_size = bucket_size t,
            b_depth = Suc (b_depth (heap t (dir t ! IndexOf h t key))),
            b_list = filter (\<lambda>it. bit (h (fst it)) (b_depth (heap t (dir t ! IndexOf h t key)))
                                  = bit (h key) (b_depth (heap t (dir t ! IndexOf h t key))))
                       (b_list (heap t (dir t ! IndexOf h t key)))\<rparr>"
proof -
  let ?idx = "IndexOf h t key"
  let ?L = "b_depth (heap t (dir t ! ?idx))"
  obtain t1 n where t1: "dir_inv t1" "items_inv h t1"
    "?idx < length (dir t1)"
    "dir t1 ! ?idx = dir t ! ?idx"
    "heap t1 = heap t" "next_addr t1 = next_addr t" "bucket_size t1 = bucket_size t"
    "?L < global_depth t1"
    "global_depth t \<le> global_depth t1"
    and eq: "split_bucket h key t =
       t1\<lparr>num_buckets := n,
          dir := redirect (dir t1) (dir t1 ! ?idx) (push_bit ?L 1) (next_addr t1) (next_addr t1 + 1),
          heap := (heap t1)
            (next_addr t1 := \<lparr>b_size = bucket_size t1, b_depth = Suc ?L,
                 b_list = filter (\<lambda>it. \<not> bit (h (fst it)) ?L) (b_list (heap t1 (dir t1 ! ?idx)))\<rparr>,
             next_addr t1 + 1 := \<lparr>b_size = bucket_size t1, b_depth = Suc ?L,
                 b_list = filter (\<lambda>it. bit (h (fst it)) ?L) (b_list (heap t1 (dir t1 ! ?idx)))\<rparr>),
          next_addr := next_addr t1 + 2\<rparr>"
    using split_bucket_shape[OF inv items, of key] by metis
  let ?idx' = "h key mod 2 ^ global_depth t1"
  have idx': "?idx' < length (dir t1)" using dir_invD(4)[OF t1(1) t1(3)] by simp
  have L1: "b_depth (heap t1 (dir t1 ! ?idx)) = ?L" using t1(4,5) by simp
  have "?idx' mod 2 ^ ?L = ?idx mod 2 ^ ?L"
    using t1(8,9) dir_invD(2)[OF inv IndexOf_less[OF inv, of h key]]
    by (simp add: IndexOf_mod mod_mod_pow2)
  then have same: "dir t1 ! ?idx' = dir t1 ! ?idx"
    using dir_invD(3)[OF t1(1) t1(3) idx'] L1 by simp
  have b: "bit ?idx' ?L = bit (h key) ?L" using t1(8) by (simp add: bit_mod_pow2)
  have old: "dir t1 ! ?idx < next_addr t1" using dir_invD(1)[OF t1(1) t1(3)] .
  have I: "IndexOf h (split_bucket h key t) key = ?idx'"
    unfolding eq by (simp add: IndexOf_mod)
  have "dir (split_bucket h key t) ! ?idx' =
          redirect (dir t1) (dir t1 ! ?idx) (push_bit ?L 1) (next_addr t1) (next_addr t1 + 1) ! ?idx'"
    unfolding eq by simp
  also have "\<dots> = (if dir t1 ! ?idx' = dir t1 ! ?idx
                     then (if bit ?idx' ?L then next_addr t1 + 1 else next_addr t1)
                     else dir t1 ! ?idx')"
    unfolding redirect_nth[OF idx'] and_push_bit_1 ..
  also have "\<dots> = (if bit (h key) ?L then next_addr t1 + 1 else next_addr t1)"
    using same b by simp
  finally have "dir (split_bucket h key t) ! ?idx' =
                  (if bit (h key) ?L then next_addr t1 + 1 else next_addr t1)" .
  then show ?thesis unfolding I
    unfolding eq using t1(4,5,7) by (auto intro!: filter_cong)
qed

lemmas split_while_full_induct = split_while_full.raw_induct [rotated, consumes 1, case_names step]

lemma split_bucket_bucket_size [simp]: "bucket_size (split_bucket h key t) = bucket_size t"
  by (simp add: split_bucket_eq Let_def)

lemma split_while_full_inv:
  assumes "split_while_full h key t = Some t'" "dir_inv t" "items_inv h t"
  shows "dir_inv t' \<and> items_inv h t' \<and> bucket_size t' = bucket_size t
         \<and> \<not> IsFull (heap t' (dir t' ! IndexOf h t' key))"
  using assms
proof (induction rule: split_while_full_induct)
  case (step f h key t y)
  note 1 = step
  show ?case
  proof (cases "IsFull (heap t (dir t ! IndexOf h t key))")
    case True
    then have "f h key (split_bucket h key t) = Some y" using 1(2) by simp
    from 1(1)[OF this split_bucket_inv[OF 1(3,4)]] show ?thesis by simp
  next
    case False
    then show ?thesis using 1 by simp
  qed
qed

lemma update_first_keys [simp]: "map fst (update_first key val xs) = map fst xs"
  by (induction xs) simp_all

lemma update_first_length [simp]: "length (update_first key val xs) = length xs"
  by (induction xs) simp_all

lemma update_first_set: "it \<in> set (update_first key val xs) \<Longrightarrow> it \<in> set xs \<or> fst it = key"
  by (induction xs) (auto split: if_splits)

lemma Find_update_first:
  "key \<in> fst ` set xs \<Longrightarrow> Bucket_Find_list key (update_first key val xs) = Some val"
  by (induction xs) auto

lemma Find_append_new:
  "key \<notin> fst ` set xs \<Longrightarrow> Bucket_Find_list key (xs @ [(key, val)]) = Some val"
  by (induction xs) auto

lemma erase_first_set: "it \<in> set (erase_first key xs) \<Longrightarrow> it \<in> set xs"
  by (induction xs) (auto split: if_splits)

lemma erase_first_length: "length (erase_first key xs) \<le> length xs"
  by (induction xs) auto

lemma erase_first_distinct: "distinct (map fst xs) \<Longrightarrow> distinct (map fst (erase_first key xs))"
  by (induction xs) (auto dest: erase_first_set)

lemma heap_update_dir_inv:
  assumes "dir_inv t" "b_depth b = b_depth (heap t a)"
  shows "dir_inv (t\<lparr>heap := (heap t)(a := b)\<rparr>)"
proof (rule dir_invI)
  let ?t = "t\<lparr>heap := (heap t)(a := b)\<rparr>"
  have d: "b_depth (heap ?t x) = b_depth (heap t x)" for x using assms(2) by simp
  show "length (dir ?t) = 2 ^ global_depth ?t" using assms(1) by (simp add: dir_inv_def)
  show "dir ?t ! i < next_addr ?t" if "i < length (dir ?t)" for i
    using that dir_invD(1)[OF assms(1), of i] by simp
  show "b_depth (heap ?t (dir ?t ! i)) \<le> global_depth ?t" if "i < length (dir ?t)" for i
    unfolding d using that dir_invD(2)[OF assms(1), of i] by simp
  show "(dir ?t ! j = dir ?t ! i) =
        (j mod 2 ^ b_depth (heap ?t (dir ?t ! i)) = i mod 2 ^ b_depth (heap ?t (dir ?t ! i)))"
    if "i < length (dir ?t)" "j < length (dir ?t)" for i j
    unfolding d using that dir_invD(3)[OF assms(1), of i j] by simp
qed

lemma heap_update_items_inv:
  assumes inv: "dir_inv t" and items: "items_inv h t" and idx: "idx < length (dir t)"
    and b: "b_depth b = b_depth (heap t (dir t ! idx))" "b_size b = bucket_size t"
      "length (b_list b) \<le> bucket_size t" "distinct (map fst (b_list b))"
      "\<And>it. it \<in> set (b_list b) \<Longrightarrow>
         h (fst it) mod 2 ^ b_depth (heap t (dir t ! idx)) = idx mod 2 ^ b_depth (heap t (dir t ! idx))"
  shows "items_inv h (t\<lparr>heap := (heap t)(dir t ! idx := b)\<rparr>)"
proof (rule items_invI)
  let ?t = "t\<lparr>heap := (heap t)(dir t ! idx := b)\<rparr>"
  fix i assume "i < length (dir ?t)"
  then have i: "i < length (dir t)" by simp
  have bucket: "heap ?t (dir ?t ! i) = (if dir t ! i = dir t ! idx then b else heap t (dir t ! i))"
    by simp
  show "b_size (heap ?t (dir ?t ! i)) = bucket_size ?t"
    using bucket b(2) items_invD(1)[OF items i] by simp
  show "length (b_list (heap ?t (dir ?t ! i))) \<le> bucket_size ?t"
    using bucket b(3) items_invD(2)[OF items i] by simp
  show "distinct (map fst (b_list (heap ?t (dir ?t ! i))))"
    using bucket b(4) items_invD(3)[OF items i] by simp
  fix it assume it: "it \<in> set (b_list (heap ?t (dir ?t ! i)))"
  show "h (fst it) mod 2 ^ b_depth (heap ?t (dir ?t ! i)) = i mod 2 ^ b_depth (heap ?t (dir ?t ! i))"
  proof (cases "dir t ! i = dir t ! idx")
    case True
    then have "i mod 2 ^ b_depth (heap t (dir t ! idx)) = idx mod 2 ^ b_depth (heap t (dir t ! idx))"
      using dir_invD(3)[OF inv idx i] by simp
    then show ?thesis using True it b(1) b(5)[of it] by simp
  next
    case False
    then show ?thesis using it items_invD(4)[OF items i, of it] by simp
  qed
qed

lemma upsert_inv:
  assumes inv: "dir_inv t" and items: "items_inv h t"
    and nf: "\<not> IsFull (heap t (dir t ! IndexOf h t key))"
  shows "dir_inv (upsert h key val t)" and "items_inv h (upsert h key val t)"
proof -
  let ?idx = "IndexOf h t key"
  let ?b = "heap t (dir t ! ?idx)"
  let ?b' = "if key \<in> fst ` set (b_list ?b)
             then ?b\<lparr>b_list := update_first key val (b_list ?b)\<rparr>
             else snd (Bucket_Insert ?b key val)"
  have idx: "?idx < length (dir t)" using inv by (rule IndexOf_less)
  have eq: "upsert h key val t = t\<lparr>heap := (heap t)(dir t ! ?idx := ?b')\<rparr>"
    by (simp add: upsert_def Let_def)
  have d: "b_depth ?b' = b_depth ?b" by simp
  have place: "h key mod 2 ^ b_depth ?b = ?idx mod 2 ^ b_depth ?b"
    using dir_invD(2)[OF inv idx] by (simp add: IndexOf_mod mod_mod_pow2)
  have len: "length (b_list ?b) < bucket_size t"
    using nf items_invD(1,2)[OF items idx] by (simp add: IsFull_def)
  show "dir_inv (upsert h key val t)" unfolding eq using inv d by (rule heap_update_dir_inv)
  show "items_inv h (upsert h key val t)" unfolding eq
  proof (rule heap_update_items_inv[OF inv items idx d])
    show "b_size ?b' = bucket_size t" using items_invD(1)[OF items idx] by simp
    show "length (b_list ?b') \<le> bucket_size t"
    proof (cases "key \<in> fst ` set (b_list ?b)")
      case True
      then show ?thesis using len by simp
    next
      case False
      then show ?thesis using len by (simp add: Bucket_Insert_def)
    qed
    show "distinct (map fst (b_list ?b'))"
    proof (cases "key \<in> fst ` set (b_list ?b)")
      case True
      then show ?thesis using items_invD(3)[OF items idx] by simp
    next
      case False
      then show ?thesis using items_invD(3)[OF items idx] by (simp add: Bucket_Insert_def)
    qed
    show "h (fst it) mod 2 ^ b_depth ?b = ?idx mod 2 ^ b_depth ?b" if "it \<in> set (b_list ?b')" for it
    proof -
      have "it \<in> set (b_list ?b) \<or> fst it = key"
      proof (cases "key \<in> fst ` set (b_list ?b)")
        case True
        then show ?thesis using that update_first_set[of it key val "b_list ?b"] by simp
      next
        case False
        then show ?thesis using that by (auto simp: Bucket_Insert_def split: if_splits)
      qed
      then show ?thesis using items_invD(4)[OF items idx, of it] place by blast
    qed
  qed
qed

lemma upsert_Find:
  assumes "\<not> IsFull (heap t (dir t ! IndexOf h t key))"
  shows "ExtendibleHashTable_Find h (upsert h key val t) key = Some val"
proof -
  have I: "IndexOf h (upsert h key val t) key = IndexOf h t key"
    by (simp add: IndexOf_def upsert_def Let_def)
  have D: "dir (upsert h key val t) = dir t" by (simp add: upsert_def Let_def)
  show ?thesis
  proof (cases "key \<in> fst ` set (b_list (heap t (dir t ! IndexOf h t key)))")
    case True
    then show ?thesis unfolding ExtendibleHashTable_Find_def Let_def I D
      by (simp add: upsert_def Let_def Bucket_Find_def Find_update_first)
  next
    case False
    then show ?thesis unfolding ExtendibleHashTable_Find_def Let_def I D using assms
      by (simp add: upsert_def Let_def Bucket_Find_def Bucket_Insert_def Find_append_new)
  qed
qed

lemma upsert_fields [simp]:
  "global_depth (upsert h key val t) = global_depth t"
  "dir (upsert h key val t) = dir t"
  "bucket_size (upsert h key val t) = bucket_size t"
  "num_buckets (upsert h key val t) = num_buckets t"
  by (simp_all add: upsert_def Let_def)

lemma Remove_inv:
  assumes inv: "dir_inv t" and items: "items_inv h t"
  shows "dir_inv (snd (ExtendibleHashTable_Remove h t key))"
    and "items_inv h (snd (ExtendibleHashTable_Remove h t key))"
proof -
  let ?idx = "IndexOf h t key"
  let ?b = "heap t (dir t ! ?idx)"
  let ?b' = "snd (Bucket_Remove ?b key)"
  have idx: "?idx < length (dir t)" using inv by (rule IndexOf_less)
  have eq: "snd (ExtendibleHashTable_Remove h t key) = t\<lparr>heap := (heap t)(dir t ! ?idx := ?b')\<rparr>"
    by (simp add: ExtendibleHashTable_Remove_def Let_def split: prod.splits)
  have d: "b_depth ?b' = b_depth ?b" by (simp add: Bucket_Remove_def)
  show "dir_inv (snd (ExtendibleHashTable_Remove h t key))"
    unfolding eq using inv d by (rule heap_update_dir_inv)
  show "items_inv h (snd (ExtendibleHashTable_Remove h t key))" unfolding eq
  proof (rule heap_update_items_inv[OF inv items idx d])
    show "b_size ?b' = bucket_size t"
      using items_invD(1)[OF items idx] by (simp add: Bucket_Remove_def)
    show "length (b_list ?b') \<le> bucket_size t"
      using items_invD(2)[OF items idx] erase_first_length[of key "b_list ?b"]
      by (auto simp: Bucket_Remove_def)
    show "distinct (map fst (b_list ?b'))"
      using items_invD(3)[OF items idx] by (auto simp: Bucket_Remove_def erase_first_distinct)
    show "h (fst it) mod 2 ^ b_depth ?b = ?idx mod 2 ^ b_depth ?b" if "it \<in> set (b_list ?b')" for it
      using that items_invD(4)[OF items idx, of it]
      by (auto simp: Bucket_Remove_def split: if_splits dest: erase_first_set)
  qed
qed

lemma new_dir_inv: "dir_inv (ExtendibleHashTable_new bsz)"
  by (rule dir_invI) (simp_all add: ExtendibleHashTable_new_def Bucket_new_def)

lemma new_items_inv: "items_inv h (ExtendibleHashTable_new bsz)"
  by (rule items_invI) (simp_all add: ExtendibleHashTable_new_def Bucket_new_def)

lemma Insert_inv:
  assumes "ExtendibleHashTable_Insert h t key val = Some t'" "dir_inv t" "items_inv h t"
  shows "dir_inv t'" "items_inv h t'" "bucket_size t' = bucket_size t"
    "ExtendibleHashTable_Find h t' key = Some val"
proof -
  obtain t1 where t1: "split_while_full h key t = Some t1" and t': "t' = upsert h key val t1"
    using assms(1) by (auto simp: ExtendibleHashTable_Insert_def split: option.splits)
  from split_while_full_inv[OF t1 assms(2,3)]
  have s: "dir_inv t1" "items_inv h t1" "bucket_size t1 = bucket_size t"
    "\<not> IsFull (heap t1 (dir t1 ! IndexOf h t1 key))" by simp_all
  show "dir_inv t'" unfolding t' using s(1,2,4) by (rule upsert_inv(1))
  show "items_inv h t'" unfolding t' using s(1,2,4) by (rule upsert_inv(2))
  show "bucket_size t' = bucket_size t" unfolding t' using s(3) by simp
  show "ExtendibleHashTable_Find h t' key = Some val" unfolding t' using s(4) by (rule upsert_Find)
qed

lemma target_agree:
  assumes inv: "dir_inv t" and items: "items_inv h t"
    and it: "it \<in> set (b_list (heap t (dir t ! IndexOf h t key)))"
  shows "h (fst it) mod 2 ^ b_depth (heap t (dir t ! IndexOf h t key))
           = h key mod 2 ^ b_depth (heap t (dir t ! IndexOf h t key))"
proof -
  have idx: "IndexOf h t key < length (dir t)" using inv by (rule IndexOf_less)
  show ?thesis
    using items_invD(4)[OF items idx it] dir_invD(2)[OF inv idx]
    by (simp add: IndexOf_mod mod_mod_pow2)
qed

lemma filter_same_hash:
  "filter (\<lambda>it. h (fst it) = x) (filter (\<lambda>it. bit (h (fst it)) L = bit x L) xs)
     = filter (\<lambda>it. h (fst it) = x) xs"
  by (induction xs) auto

lemma filter_same_hash':
  "filter (\<lambda>it. (bit (h (fst it)) L = bit x L) \<and> h (fst it) = x) xs
     = filter (\<lambda>it. h (fst it) = x) xs"
  by (rule filter_cong) auto

lemma exists_separating_depth:
  "\<exists>M. \<forall>it \<in> set xs. h (fst it) \<noteq> (x::nat) \<longrightarrow> h (fst it) mod 2 ^ M \<noteq> x mod 2 ^ M"
proof -
  let ?M = "x + sum_list (map (\<lambda>it. h (fst it)) xs)"
  have small: "y < 2 ^ ?M" if "y \<le> ?M" for y
    using that less_exp[of ?M] by linarith
  have "h (fst it) mod 2 ^ ?M \<noteq> x mod 2 ^ ?M" if "it \<in> set xs" "h (fst it) \<noteq> x" for it
  proof -
    have "h (fst it) \<in> set (map (\<lambda>it. h (fst it)) xs)" using that(1) by auto
    then have "h (fst it) \<le> sum_list (map (\<lambda>it. h (fst it)) xs)"
      by (simp add: member_le_sum_list)
    then have "h (fst it) < 2 ^ ?M" by (intro small) simp
    moreover have "x < 2 ^ ?M" by (intro small) simp
    ultimately show ?thesis using that(2) by simp
  qed
  then show ?thesis by blast
qed

lemma split_while_full_terminates_aux:
  assumes "M - b_depth (heap t (dir t ! IndexOf h t key)) = n"
    and "dir_inv t" and "items_inv h t"
    and "length (filter (\<lambda>it. h (fst it) = h key) (b_list (heap t (dir t ! IndexOf h t key))))
           < bucket_size t"
    and "\<forall>it \<in> set (b_list (heap t (dir t ! IndexOf h t key))).
           h (fst it) \<noteq> h key \<longrightarrow> h (fst it) mod 2 ^ M \<noteq> h key mod 2 ^ M"
  shows "\<exists>t'. split_while_full h key t = Some t'"
  using assms
proof (induction n arbitrary: t)
  case 0
  let ?b = "heap t (dir t ! IndexOf h t key)"
  have "\<not> IsFull ?b"
  proof
    assume full: "IsFull ?b"
    have idx: "IndexOf h t key < length (dir t)" using 0(2) by (rule IndexOf_less)
    have "h (fst it) = h key" if "it \<in> set (b_list ?b)" for it
    proof (rule ccontr)
      assume ne: "h (fst it) \<noteq> h key"
      have "h (fst it) mod 2 ^ b_depth ?b = h key mod 2 ^ b_depth ?b"
        using target_agree[OF 0(2,3) that] .
      then have "(h (fst it) mod 2 ^ b_depth ?b) mod 2 ^ M = (h key mod 2 ^ b_depth ?b) mod 2 ^ M"
        by simp
      then have "h (fst it) mod 2 ^ M = h key mod 2 ^ M"
        using 0(1) by (simp add: mod_mod_pow2)
      then show False using 0(5) that ne by blast
    qed
    then have "filter (\<lambda>it. h (fst it) = h key) (b_list ?b) = b_list ?b"
      by (simp add: filter_id_conv)
    then show False using 0(4) full items_invD(1)[OF 0(3) idx] by (simp add: IsFull_def)
  qed
  then show ?case by (subst split_while_full.simps) simp
next
  case (Suc n)
  let ?b = "heap t (dir t ! IndexOf h t key)"
  let ?t = "split_bucket h key t"
  show ?case
  proof (cases "IsFull ?b")
    case False
    then show ?thesis by (subst split_while_full.simps) simp
  next
    case True
    have tgt: "heap ?t (dir ?t ! IndexOf h ?t key) =
           \<lparr>b_size = bucket_size t, b_depth = Suc (b_depth ?b),
            b_list = filter (\<lambda>it. bit (h (fst it)) (b_depth ?b) = bit (h key) (b_depth ?b)) (b_list ?b)\<rparr>"
      using split_bucket_target[OF Suc.prems(2,3)] .
    have "\<exists>t'. split_while_full h key ?t = Some t'"
    proof (rule Suc.IH)
      show "M - b_depth (heap ?t (dir ?t ! IndexOf h ?t key)) = n"
        unfolding tgt using Suc.prems(1) by simp
      show "dir_inv ?t" "items_inv h ?t" using split_bucket_inv[OF Suc.prems(2,3)] by blast+
      show "length (filter (\<lambda>it. h (fst it) = h key) (b_list (heap ?t (dir ?t ! IndexOf h ?t key))))
              < bucket_size ?t"
        unfolding tgt using Suc.prems(4) by (simp add: filter_same_hash')
      show "\<forall>it \<in> set (b_list (heap ?t (dir ?t ! IndexOf h ?t key))).
              h (fst it) \<noteq> h key \<longrightarrow> h (fst it) mod 2 ^ M \<noteq> h key mod 2 ^ M"
        unfolding tgt using Suc.prems(5) by simp
    qed
    then show ?thesis using True by (subst split_while_full.simps) simp
  qed
qed

lemma split_while_full_terminates:
  assumes "dir_inv t" and "items_inv h t"
    and "length (filter (\<lambda>it. h (fst it) = h key) (b_list (heap t (dir t ! IndexOf h t key))))
           < bucket_size t"
  shows "\<exists>t'. split_while_full h key t = Some t'"
proof -
  obtain M where "\<forall>it \<in> set (b_list (heap t (dir t ! IndexOf h t key))).
           h (fst it) \<noteq> h key \<longrightarrow> h (fst it) mod 2 ^ M \<noteq> h key mod 2 ^ M"
    using exists_separating_depth[of "b_list (heap t (dir t ! IndexOf h t key))" h "h key"] by blast
  with split_while_full_terminates_aux[OF refl assms] show ?thesis by blast
qed

lemma split_while_full_never_returns:
  assumes "split_while_full h key t = Some t'" "dir_inv t" "items_inv h t"
    "bucket_size t \<le>
       length (filter (\<lambda>it. h (fst it) = h key) (b_list (heap t (dir t ! IndexOf h t key))))"
  shows False
  using assms
proof (induction rule: split_while_full_induct)
  case (step f h key t y)
  let ?b = "heap t (dir t ! IndexOf h t key)"
  let ?t = "split_bucket h key t"
  have idx: "IndexOf h t key < length (dir t)" using step(3) by (rule IndexOf_less)
  have le: "length (filter (\<lambda>it. h (fst it) = h key) (b_list ?b)) \<le> length (b_list ?b)"
    by (rule length_filter_le)
  have "length (b_list ?b) = bucket_size t"
    using le step(5) items_invD(2)[OF step(4) idx] by linarith
  then have full: "IsFull ?b"
    using items_invD(1)[OF step(4) idx] by (simp add: IsFull_def)
  then have f: "f h key ?t = Some y" using step(2) by simp
  have tgt: "heap ?t (dir ?t ! IndexOf h ?t key) =
           \<lparr>b_size = bucket_size t, b_depth = Suc (b_depth ?b),
            b_list = filter (\<lambda>it. bit (h (fst it)) (b_depth ?b) = bit (h key) (b_depth ?b)) (b_list ?b)\<rparr>"
    using split_bucket_target[OF step(3,4)] .
  show ?case
  proof (rule step(1)[OF f])
    show "dir_inv ?t" "items_inv h ?t" using split_bucket_inv[OF step(3,4)] by blast+
    show "bucket_size ?t \<le>
       length (filter (\<lambda>it. h (fst it) = h key) (b_list (heap ?t (dir ?t ! IndexOf h ?t key))))"
      unfolding tgt using step(5) by (simp add: filter_same_hash')
  qed
qed

lemma count_mod_class:
  assumes "L \<le> G" "r < 2 ^ L"
  shows "card {j::nat. j < 2 ^ G \<and> j mod 2 ^ L = r} = 2 ^ (G - L)"
proof -
  have G: "(2::nat) ^ G = 2 ^ L * 2 ^ (G - L)" using assms(1) by (simp flip: power_add)
  have "{j::nat. j < 2 ^ G \<and> j mod 2 ^ L = r} = (\<lambda>q. r + q * 2 ^ L) ` {..<2 ^ (G - L)}"
  proof (intro set_eqI iffI)
    fix j assume "j \<in> {j::nat. j < 2 ^ G \<and> j mod 2 ^ L = r}"
    then have j: "j < 2 ^ L * 2 ^ (G - L)" "j mod 2 ^ L = r" using G by simp_all
    have "j div 2 ^ L < 2 ^ (G - L)" using j(1) by (simp add: less_mult_imp_div_less mult.commute)
    moreover have "j = r + (j div 2 ^ L) * 2 ^ L" using j(2) div_mult_mod_eq[of j "2 ^ L"] by simp
    ultimately show "j \<in> (\<lambda>q. r + q * 2 ^ L) ` {..<2 ^ (G - L)}" by blast
  next
    fix j assume "j \<in> (\<lambda>q. r + q * 2 ^ L) ` {..<2 ^ (G - L)}"
    then obtain q where q: "q < 2 ^ (G - L)" "j = r + q * 2 ^ L" by auto
    have "r + q * 2 ^ L < 2 ^ L + q * 2 ^ L" using assms(2) by simp
    also have "\<dots> = Suc q * 2 ^ L" by simp
    also have "\<dots> \<le> 2 ^ (G - L) * 2 ^ L" using q(1) by (intro mult_le_mono1) simp
    finally have "j < 2 ^ G" using q(2) G by (simp add: mult.commute)
    moreover have "j mod 2 ^ L = r" using q(2) assms(2) by simp
    ultimately show "j \<in> {j::nat. j < 2 ^ G \<and> j mod 2 ^ L = r}" by simp
  qed
  moreover have "inj_on (\<lambda>q. r + q * (2::nat) ^ L) {..<2 ^ (G - L)}"
    by (rule inj_onI) simp
  ultimately show ?thesis by (simp add: card_image)
qed

lemma split_while_full_not_full:
  assumes "split_while_full h key t = Some t'"
  shows "\<not> IsFull (heap t' (dir t' ! IndexOf h t' key))"
  using assms
proof (induction rule: split_while_full_induct)
  case (step f h key t y)
  then show ?case by (auto split: if_splits)
qed

lemma Insert_Find:
  assumes "ExtendibleHashTable_Insert h t key val = Some t'"
  shows "ExtendibleHashTable_Find h t' key = Some val"
proof -
  obtain t1 where t1: "split_while_full h key t = Some t1" and t': "t' = upsert h key val t1"
    using assms by (auto simp: ExtendibleHashTable_Insert_def split: option.splits)
  show ?thesis unfolding t' using split_while_full_not_full[OF t1] by (rule upsert_Find)
qed

lemma Insert_returns:
  assumes "dir_inv t" and "items_inv h t"
    and "length (filter (\<lambda>it. h (fst it) = h key) (b_list (heap t (dir t ! IndexOf h t key))))
           < bucket_size t"
  shows "\<exists>t'. ExtendibleHashTable_Insert h t key val = Some t'
               \<and> ExtendibleHashTable_Find h t' key = Some val"
proof -
  obtain t1 where "split_while_full h key t = Some t1"
    using split_while_full_terminates[OF assms] by blast
  then have "ExtendibleHashTable_Insert h t key val = Some (upsert h key val t1)"
    by (simp add: ExtendibleHashTable_Insert_def)
  then show ?thesis using Insert_Find[of h t key val] by auto
qed

lemma run_ops_inv:
  assumes "run_ops h t ops = Some t'" "dir_inv t" "items_inv h t"
  shows "dir_inv t' \<and> items_inv h t' \<and> bucket_size t' = bucket_size t"
  using assms
proof (induction ops arbitrary: t)
  case Nil
  then show ?case by simp
next
  case (Cons x xs)
  then obtain t1 where t1: "apply_op h t x = Some t1" and r: "run_ops h t1 xs = Some t'"
    by (auto split: option.splits)
  have "dir_inv t1 \<and> items_inv h t1 \<and> bucket_size t1 = bucket_size t"
  proof (cases x)
    case (Insert_op key val)
    then show ?thesis using t1 Insert_inv(1,2,3)[OF _ Cons.prems(2,3)] by simp
  next
    case (Find_op key)
    then show ?thesis using t1 Cons.prems by auto
  next
    case (Remove_op key)
    have "bucket_size (snd (ExtendibleHashTable_Remove h t key)) = bucket_size t"
      by (simp add: ExtendibleHashTable_Remove_def Let_def split: prod.splits)
    then show ?thesis using Remove_op t1 Remove_inv[OF Cons.prems(2,3)] by auto
  qed
  then show ?case using Cons.IH[OF r] by simp
qed

lemma reachable_inv:
  assumes "run_ops h (ExtendibleHashTable_new bsz) ops = Some t"
  shows "dir_inv t" "items_inv h t" "bucket_size t = bsz"
  using run_ops_inv[OF assms new_dir_inv new_items_inv]
  by (simp_all add: ExtendibleHashTable_new_def)

text \<open>
  Claim C5. After every sequence of \<open>Insert\<close>, \<open>Find\<close> and \<open>Remove\<close> calls on a fresh table
  that has returned, the directory has \<open>2 ^ G\<close> slots; the bucket of every slot \<open>i\<close> has a
  local depth \<open>L \<le> G\<close> and a low-bit identifier \<open>low < 2 ^ L\<close> such that the slots holding
  that bucket are exactly the indices \<open>j\<close> with \<open>j mod 2 ^ L = low\<close>, and there are exactly
  \<open>2 ^ (G - L)\<close> of them. Doubling a directory of \<open>c\<close> slots gives \<open>2 * c\<close> slots in which
  slot \<open>c + i\<close> and slot \<open>i\<close> both point where slot \<open>i\<close> did.
\<close>

theorem directory_invariant:
  assumes "run_ops h (ExtendibleHashTable_new bsz) ops = Some t"
  shows "length (dir t) = 2 ^ GetGlobalDepth t \<and>
         (\<forall>i < length (dir t).
            GetLocalDepth t i \<le> GetGlobalDepth t \<and>
            (\<exists>low < 2 ^ GetLocalDepth t i.
               \<forall>j < length (dir t). (dir t ! j = dir t ! i) = (j mod 2 ^ GetLocalDepth t i = low)) \<and>
            card {j. j < length (dir t) \<and> dir t ! j = dir t ! i}
              = 2 ^ (GetGlobalDepth t - GetLocalDepth t i)) \<and>
         length (double_dir (dir t)) = 2 * length (dir t) \<and>
         (\<forall>i < length (dir t).
            double_dir (dir t) ! (length (dir t) + i) = dir t ! i \<and>
            double_dir (dir t) ! i = dir t ! i)"
proof -
  have inv: "dir_inv t" using reachable_inv(1)[OF assms] .
  have len: "length (dir t) = 2 ^ global_depth t" using inv by (simp add: dir_inv_def)
  have slot: "GetLocalDepth t i \<le> GetGlobalDepth t \<and>
            (\<exists>low < 2 ^ GetLocalDepth t i.
               \<forall>j < length (dir t). (dir t ! j = dir t ! i) = (j mod 2 ^ GetLocalDepth t i = low)) \<and>
            card {j. j < length (dir t) \<and> dir t ! j = dir t ! i}
              = 2 ^ (GetGlobalDepth t - GetLocalDepth t i)"
    if i: "i < length (dir t)" for i
  proof -
    let ?L = "b_depth (heap t (dir t ! i))"
    have L: "?L \<le> global_depth t" using dir_invD(2)[OF inv i] .
    have same: "(dir t ! j = dir t ! i) = (j mod 2 ^ ?L = i mod 2 ^ ?L)" if "j < length (dir t)" for j
      using dir_invD(3)[OF inv i that] .
    have "{j. j < length (dir t) \<and> dir t ! j = dir t ! i}
            = {j. j < 2 ^ global_depth t \<and> j mod 2 ^ ?L = i mod 2 ^ ?L}"
      using same len by auto
    then have "card {j. j < length (dir t) \<and> dir t ! j = dir t ! i} = 2 ^ (global_depth t - ?L)"
      using count_mod_class[OF L, of "i mod 2 ^ ?L"] by simp
    moreover have "\<exists>low < 2 ^ ?L. \<forall>j < length (dir t). (dir t ! j = dir t ! i) = (j mod 2 ^ ?L = low)"
      using same by (intro exI[of _ "i mod 2 ^ ?L"]) simp
    ultimately show ?thesis using L by (simp add: GetLocalDepth_def GetGlobalDepth_def)
  qed
  have dbl: "double_dir (dir t) ! (length (dir t) + i) = dir t ! i \<and> double_dir (dir t) ! i = dir t ! i"
    if "i < length (dir t)" for i
    using that by (simp add: double_dir_eq nth_append)
  show ?thesis using len slot dbl by (simp add: GetGlobalDepth_def double_dir_eq)
qed

theorem directory_invariant_witness:
  "run_ops hash_int (ExtendibleHashTable_new 2)
      [Insert_op 1 ''a'', Insert_op 5 ''b'', Insert_op 9 ''c'', Find_op 5, Remove_op 5] \<noteq> None \<and>
   length (dir (the (run_ops hash_int (ExtendibleHashTable_new 2)
      [Insert_op 1 ''a'', Insert_op 5 ''b'', Insert_op 9 ''c'', Find_op 5, Remove_op 5]))) = 8 \<and>
   card {j. j < 8 \<and>
      dir (the (run_ops hash_int (ExtendibleHashTable_new 2)
        [Insert_op 1 ''a'', Insert_op 5 ''b'', Insert_op 9 ''c'', Find_op 5, Remove_op 5])) ! j
      = dir (the (run_ops hash_int (ExtendibleHashTable_new 2)
        [Insert_op 1 ''a'', Insert_op 5 ''b'', Insert_op 9 ''c'', Find_op 5, Remove_op 5])) ! 0} = 4"
proof -
  let ?r = "run_ops hash_int (ExtendibleHashTable_new 2)
      [Insert_op 1 ''a'', Insert_op 5 ''b'', Insert_op 9 ''c'', Find_op 5, Remove_op 5]"
  have "map_option (\<lambda>t. (global_depth t, GetLocalDepth t 0)) ?r = Some (3, 1)"
    by code_simp
  then obtain t where t: "?r = Some t" "global_depth t = 3" "GetLocalDepth t 0 = 1"
    by auto
  note d = directory_invariant[OF t(1)]
  have l: "length (dir t) = 8" using d t(2) by (simp add: GetGlobalDepth_def)
  then have "0 < length (dir t)" by simp
  with d have "card {j. j < length (dir t) \<and> dir t ! j = dir t ! 0}
                 = 2 ^ (GetGlobalDepth t - GetLocalDepth t 0)" by blast
  then show ?thesis using l t by (simp add: GetGlobalDepth_def)
qed


lemma Find_list_mem: "Bucket_Find_list key xs = Some v \<Longrightarrow> (key, v) \<in> set xs"
  by (induction xs) (auto split: if_splits)

text \<open>
  Claim C6 says that \<open>Find(k)\<close> after \<open>Insert(k, v)\<close> returns \<open>v\<close> for every sequence of
  operations. \<open>Insert_Find\<close> and \<open>Insert_returns\<close> above prove it whenever fewer than
  \<open>bucket_size\<close> pairs of the bucket of \<open>k\<close> have the hash of \<open>k\<close>. The loop of \<open>Insert\<close> tests
  for a full bucket before it looks for the key, so with \<open>bucket_size = 1\<close> the second
  \<open>Insert\<close> of a key finds its bucket full after every split and never returns:
  the first call below returns, the second does not.
\<close>

theorem reinsert_in_unit_bucket_never_returns:
  "run_ops hash_int (ExtendibleHashTable_new 1) [Insert_op 1 (10::int)] \<noteq> None \<and>
   run_ops hash_int (ExtendibleHashTable_new 1) [Insert_op 1 (10::int), Insert_op 1 20] = None"
proof -
  have "map_option global_depth (run_ops hash_int (ExtendibleHashTable_new 1) [Insert_op 1 (10::int)])
          = Some 0"
    by code_simp
  then obtain t where t: "run_ops hash_int (ExtendibleHashTable_new 1) [Insert_op 1 (10::int)] = Some t"
    by auto
  then have ins: "ExtendibleHashTable_Insert hash_int (ExtendibleHashTable_new 1) 1 (10::int) = Some t"
    by (simp split: option.splits)
  note inv = reachable_inv[OF t]
  let ?xs = "b_list (heap t (dir t ! IndexOf hash_int t 1))"
  have "ExtendibleHashTable_Find hash_int t 1 = Some 10" using ins by (rule Insert_Find)
  then have "(1, 10) \<in> set ?xs"
    by (simp add: ExtendibleHashTable_Find_def Bucket_Find_def Find_list_mem)
  then have "(1, 10) \<in> set (filter (\<lambda>it. hash_int (fst it) = hash_int 1) ?xs)" by simp
  then have "0 < length (filter (\<lambda>it. hash_int (fst it) = hash_int 1) ?xs)"
    by (rule length_pos_if_in_set)
  then have "Suc 0 \<le> length (filter (\<lambda>it. hash_int (fst it) = hash_int 1) ?xs)"
    by (rule Suc_leI)
  then have "bucket_size t \<le> length (filter (\<lambda>it. hash_int (fst it) = hash_int 1) ?xs)"
    unfolding inv(3) by (simp only: One_nat_def)
  then have "split_while_full hash_int 1 t = None"
    using split_while_full_never_returns[OF _ inv(1,2), of 1] by (cases "split_while_full hash_int 1 t") auto
  then have "ExtendibleHashTable_Insert hash_int t 1 (20::int) = None"
    by (simp add: ExtendibleHashTable_Insert_def)
  then show ?thesis using t ins by simp
qed

text \<open>
  Claim C7 (as stated) asks for global depth 1 after \<open>Insert(1,a); Insert(5,b); Insert(9,c)\<close>
  with buckets of size 2. The hashes 1, 5 and 9 agree on their two low bits, so the code
  ends at another depth.
\<close>

theorem three_inserts_global_depth_counterexample:
  "map_option GetGlobalDepth
     (run_ops hash_int (ExtendibleHashTable_new 2)
        [Insert_op 1 ''a'', Insert_op 5 ''b'', Insert_op 9 ''c'']) \<noteq> Some 1"
  by code_simp

text \<open>
  Claim C7, amended. With buckets of size 2 the global depth is still 0 after
  \<open>Insert(1,a); Insert(5,b)\<close>; \<open>Insert(9,c)\<close> splits three times, doubling the directory
  each time, after which the global depth is 3, the directory has 8 slots, and \<open>Find\<close>
  returns the inserted values of the keys 1, 5 and 9.
\<close>

theorem three_inserts_global_depth:
  "map_option GetGlobalDepth
     (run_ops hash_int (ExtendibleHashTable_new 2) [Insert_op 1 ''a'', Insert_op 5 ''b'']) = Some 0 \<and>
   map_option (\<lambda>t. (GetGlobalDepth t, length (dir t), ExtendibleHashTable_Find hash_int t 1,
                     ExtendibleHashTable_Find hash_int t 5, ExtendibleHashTable_Find hash_int t 9))
     (run_ops hash_int (ExtendibleHashTable_new 2)
        [Insert_op 1 ''a'', Insert_op 5 ''b'', Insert_op 9 ''c''])
     = Some (3, 8, Some ''a'', Some ''b'', Some ''c'')"
  by code_simp

subsection \<open>The table as a map\<close>

lemma split_bucket_slot:
  assumes inv: "dir_inv t" and items: "items_inv h t"
  shows "heap (split_bucket h key t) (dir (split_bucket h key t) ! IndexOf h (split_bucket h key t) k') =
           (if dir t ! IndexOf h t k' = dir t ! IndexOf h t key
            then \<lparr>b_size = bucket_size t,
                  b_depth = Suc (b_depth (heap t (dir t ! IndexOf h t key))),
                  b_list = filter (\<lambda>it. bit (h (fst it)) (b_depth (heap t (dir t ! IndexOf h t key)))
                                        = bit (h k') (b_depth (heap t (dir t ! IndexOf h t key))))
                             (b_list (heap t (dir t ! IndexOf h t key)))\<rparr>
            else heap t (dir t ! IndexOf h t k'))"
proof -
  let ?idx = "IndexOf h t key"
  let ?L = "b_depth (heap t (dir t ! ?idx))"
  obtain t1 n where t1: "dir_inv t1" "items_inv h t1"
    "?idx < length (dir t1)"
    "dir t1 ! ?idx = dir t ! ?idx"
    "heap t1 = heap t" "next_addr t1 = next_addr t" "bucket_size t1 = bucket_size t"
    "?L < global_depth t1"
    "global_depth t \<le> global_depth t1"
    "\<forall>i < length (dir t1). dir t1 ! i = dir t ! (i mod 2 ^ global_depth t)"
    and eq: "split_bucket h key t =
       t1\<lparr>num_buckets := n,
          dir := redirect (dir t1) (dir t1 ! ?idx) (push_bit ?L 1) (next_addr t1) (next_addr t1 + 1),
          heap := (heap t1)
            (next_addr t1 := \<lparr>b_size = bucket_size t1, b_depth = Suc ?L,
                 b_list = filter (\<lambda>it. \<not> bit (h (fst it)) ?L) (b_list (heap t1 (dir t1 ! ?idx)))\<rparr>,
             next_addr t1 + 1 := \<lparr>b_size = bucket_size t1, b_depth = Suc ?L,
                 b_list = filter (\<lambda>it. bit (h (fst it)) ?L) (b_list (heap t1 (dir t1 ! ?idx)))\<rparr>),
          next_addr := next_addr t1 + 2\<rparr>"
    using split_bucket_shape[OF inv items, of key] by metis
  let ?idx' = "h k' mod 2 ^ global_depth t1"
  have idx': "?idx' < length (dir t1)" using dir_invD(4)[OF t1(1) t1(3)] by simp
  have "?idx' mod 2 ^ global_depth t = IndexOf h t k'"
    using t1(9) by (simp add: IndexOf_mod mod_mod_pow2)
  then have same: "dir t1 ! ?idx' = dir t ! IndexOf h t k'"
    using t1(10) idx' by simp
  have b: "bit ?idx' ?L = bit (h k') ?L" using t1(8) by (simp add: bit_mod_pow2)
  have old: "dir t1 ! ?idx' < next_addr t1" using dir_invD(1)[OF t1(1) idx'] .
  have I: "IndexOf h (split_bucket h key t) k' = ?idx'"
    unfolding eq by (simp add: IndexOf_mod)
  have "dir (split_bucket h key t) ! ?idx' =
          redirect (dir t1) (dir t1 ! ?idx) (push_bit ?L 1) (next_addr t1) (next_addr t1 + 1) ! ?idx'"
    unfolding eq by simp
  also have "\<dots> = (if dir t1 ! ?idx' = dir t1 ! ?idx
                     then (if bit ?idx' ?L then next_addr t1 + 1 else next_addr t1)
                     else dir t1 ! ?idx')"
    unfolding redirect_nth[OF idx'] and_push_bit_1 ..
  also have "\<dots> = (if dir t ! IndexOf h t k' = dir t ! ?idx
                     then (if bit (h k') ?L then next_addr t1 + 1 else next_addr t1)
                     else dir t ! IndexOf h t k')"
    using same b t1(4) by simp
  finally have D: "dir (split_bucket h key t) ! ?idx' =
                  (if dir t ! IndexOf h t k' = dir t ! ?idx
                     then (if bit (h k') ?L then next_addr t1 + 1 else next_addr t1)
                     else dir t ! IndexOf h t k')" .
  have old': "dir t ! IndexOf h t k' < next_addr t1" using old same by simp
  show ?thesis unfolding I D
    unfolding eq using t1(4,5,7) old' by (auto intro!: filter_cong)
qed

lemma Find_list_filter:
  assumes "\<And>it. it \<in> set xs \<Longrightarrow> fst it = k \<Longrightarrow> P it"
  shows "Bucket_Find_list k (filter P xs) = Bucket_Find_list k xs"
  using assms by (induction xs) auto

lemma split_bucket_Find:
  assumes inv: "dir_inv t" and items: "items_inv h t"
  shows "ExtendibleHashTable_Find h (split_bucket h key t) k' = ExtendibleHashTable_Find h t k'"
  unfolding ExtendibleHashTable_Find_def Let_def split_bucket_slot[OF inv items]
  by (simp add: Bucket_Find_def Find_list_filter)

lemma split_while_full_Find:
  assumes "split_while_full h key t = Some t'" "dir_inv t" "items_inv h t"
  shows "ExtendibleHashTable_Find h t' k' = ExtendibleHashTable_Find h t k'"
  using assms
proof (induction rule: split_while_full_induct)
  case (step f h key t y)
  show ?case
  proof (cases "IsFull (heap t (dir t ! IndexOf h t key))")
    case True
    then have "f h key (split_bucket h key t) = Some y" using step(2) by simp
    from step(1)[OF this split_bucket_inv[OF step(3,4)]] split_bucket_Find[OF step(3,4)]
    show ?thesis by simp
  next
    case False
    then show ?thesis using step by simp
  qed
qed

lemma Find_list_update_first_other:
  "k' \<noteq> k \<Longrightarrow> Bucket_Find_list k' (update_first k v xs) = Bucket_Find_list k' xs"
  by (induction xs) auto

lemma Find_list_append_other:
  "k' \<noteq> k \<Longrightarrow> Bucket_Find_list k' (xs @ [(k, v)]) = Bucket_Find_list k' xs"
  by (induction xs) auto

lemma upsert_Find_other:
  assumes "k' \<noteq> key"
  shows "ExtendibleHashTable_Find h (upsert h key val t) k' = ExtendibleHashTable_Find h t k'"
proof -
  have I: "IndexOf h (upsert h key val t) k' = IndexOf h t k'"
    by (simp add: IndexOf_def)
  show ?thesis unfolding ExtendibleHashTable_Find_def Let_def I
    using assms
    by (simp add: upsert_def Let_def Bucket_Find_def Bucket_Insert_def
          Find_list_update_first_other Find_list_append_other)
qed

lemma Insert_Find_other:
  assumes "ExtendibleHashTable_Insert h t key val = Some t'" "dir_inv t" "items_inv h t" "k' \<noteq> key"
  shows "ExtendibleHashTable_Find h t' k' = ExtendibleHashTable_Find h t k'"
proof -
  obtain t1 where t1: "split_while_full h key t = Some t1" and t': "t' = upsert h key val t1"
    using assms(1) by (auto simp: ExtendibleHashTable_Insert_def split: option.splits)
  have "ExtendibleHashTable_Find h (upsert h key val t1) k' = ExtendibleHashTable_Find h t1 k'"
    by (rule upsert_Find_other[OF assms(4)])
  also have "\<dots> = ExtendibleHashTable_Find h t k'"
    by (rule split_while_full_Find[OF t1 assms(2,3)])
  finally show ?thesis unfolding t' .
qed

lemma Find_list_erase_first:
  "distinct (map fst xs) \<Longrightarrow>
   Bucket_Find_list k' (erase_first k xs) = (if k' = k then None else Bucket_Find_list k' xs)"
proof (induction xs)
  case Nil
  then show ?case by simp
next
  case (Cons x xs)
  have "Bucket_Find_list k xs = None" if "fst x = k"
  proof (cases "Bucket_Find_list k xs")
    case (Some v)
    then have "(k, v) \<in> set xs" by (rule Find_list_mem)
    then have "k \<in> fst ` set xs" by force
    then show ?thesis using Cons.prems that by simp
  qed simp
  then show ?case using Cons by auto
qed

lemma Find_list_None: "k \<notin> fst ` set xs \<Longrightarrow> Bucket_Find_list k xs = None"
  by (induction xs) auto

lemma Remove_Find:
  assumes "dir_inv t" "items_inv h t"
  shows "ExtendibleHashTable_Find h (snd (ExtendibleHashTable_Remove h t key)) k' =
           (if k' = key then None else ExtendibleHashTable_Find h t k')"
proof -
  have idx: "IndexOf h t key < length (dir t)" using assms(1) by (rule IndexOf_less)
  have idx': "IndexOf h t k' < length (dir t)" using assms(1) by (rule IndexOf_less)
  have I: "IndexOf h (snd (ExtendibleHashTable_Remove h t key)) k' = IndexOf h t k'"
    by (simp add: IndexOf_def ExtendibleHashTable_Remove_def Let_def split: prod.splits)
  have d: "distinct (map fst (b_list (heap t (dir t ! IndexOf h t key))))"
    using items_invD(3)[OF assms(2) idx] .
  show ?thesis unfolding ExtendibleHashTable_Find_def Let_def I
    using d
    by (auto simp: ExtendibleHashTable_Remove_def Let_def Bucket_Remove_def Bucket_Find_def
          Find_list_erase_first Find_list_None split: prod.splits)
qed

subsection \<open>\<open>Insert\<close> of a key whose bucket is full\<close>









section \<open>LRU-K replacer: proofs\<close>

lemma first_evictable_filter:
  "first_evictable ev xs = (if filter ev xs = [] then None else Some (hd (filter ev xs)))"
  by (induction xs) auto

lemma first_evictable_rev:
  "first_evictable ev (rev xs) = (if filter ev xs = [] then None else Some (last (filter ev xs)))"
  by (simp add: first_evictable_filter rev_filter [symmetric] hd_rev)

lemma filter_upd_notin: "f \<notin> set xs \<Longrightarrow> filter (P(f := b)) xs = filter P xs"
  by (induction xs) auto

lemma filter_remove1_not: "\<not> P x \<Longrightarrow> filter P (remove1 x xs) = filter P xs"
  by (induction xs) auto

lemma length_filter_remove1:
  "distinct xs \<Longrightarrow> x \<in> set xs \<Longrightarrow> P x \<Longrightarrow>
   Suc (length (filter P (remove1 x xs))) = length (filter P xs)"
  by (induction xs) auto

lemma length_filter_set_True:
  "distinct xs \<Longrightarrow> f \<in> set xs \<Longrightarrow> \<not> P f \<Longrightarrow>
   length (filter (P(f := True)) xs) = Suc (length (filter P xs))"
  by (induction xs) (auto simp: filter_upd_notin)

lemma length_filter_set_False:
  "distinct xs \<Longrightarrow> f \<in> set xs \<Longrightarrow> P f \<Longrightarrow>
   Suc (length (filter (P(f := False)) xs)) = length (filter P xs)"
  by (induction xs) (auto simp: filter_upd_notin)

lemma filter_upd_same: "P f = b \<Longrightarrow> P(f := b) = P"
  by auto

lemma last_filter_in: "filter P xs \<noteq> [] \<Longrightarrow> last (filter P xs) \<in> set xs \<and> P (last (filter P xs))"
  using last_in_set[of "filter P xs"] by auto

lemma size_t_decrement_pos: "0 < n \<Longrightarrow> size_t_decrement n = n - 1"
  by (simp add: size_t_decrement_def)

text \<open>What \<open>Evict\<close> returns, in terms of the two lists.\<close>

lemma Evict_none:
  assumes "replacer_inv r" "filter (is_evictable r) (history_list r) = []"
    "filter (is_evictable r) (cache_list r) = []"
  shows "LRUKReplacer_Evict r = (None, r)"
  using assms by (simp add: LRUKReplacer_Evict_def first_evictable_rev)

lemma Evict_history:
  assumes inv: "replacer_inv r" and ne: "filter (is_evictable r) (history_list r) \<noteq> []"
  shows "LRUKReplacer_Evict r =
           (Some (last (filter (is_evictable r) (history_list r))),
            r\<lparr>access_count := (access_count r)(last (filter (is_evictable r) (history_list r)) := 0),
              history_list := remove1 (last (filter (is_evictable r) (history_list r))) (history_list r),
              is_evictable := (is_evictable r)(last (filter (is_evictable r) (history_list r)) := False),
              curr_size := curr_size r - 1\<rparr>)"
    and "0 < curr_size r"
proof -
  have "curr_size r = length (filter (is_evictable r) (history_list r @ cache_list r))"
    using inv by (simp add: replacer_inv_def)
  then show pos: "0 < curr_size r" using ne by simp
  then show "LRUKReplacer_Evict r =
           (Some (last (filter (is_evictable r) (history_list r))),
            r\<lparr>access_count := (access_count r)(last (filter (is_evictable r) (history_list r)) := 0),
              history_list := remove1 (last (filter (is_evictable r) (history_list r))) (history_list r),
              is_evictable := (is_evictable r)(last (filter (is_evictable r) (history_list r)) := False),
              curr_size := curr_size r - 1\<rparr>)"
    using ne by (simp add: LRUKReplacer_Evict_def first_evictable_rev size_t_decrement_pos)
qed

lemma Evict_cache:
  assumes inv: "replacer_inv r" and e: "filter (is_evictable r) (history_list r) = []"
    and ne: "filter (is_evictable r) (cache_list r) \<noteq> []"
  shows "LRUKReplacer_Evict r =
           (Some (last (filter (is_evictable r) (cache_list r))),
            r\<lparr>access_count := (access_count r)(last (filter (is_evictable r) (cache_list r)) := 0),
              cache_list := remove1 (last (filter (is_evictable r) (cache_list r))) (cache_list r),
              is_evictable := (is_evictable r)(last (filter (is_evictable r) (cache_list r)) := False),
              curr_size := curr_size r - 1\<rparr>)"
    and "0 < curr_size r"
proof -
  have "curr_size r = length (filter (is_evictable r) (history_list r @ cache_list r))"
    using inv by (simp add: replacer_inv_def)
  then show pos: "0 < curr_size r" using ne by simp
  then show "LRUKReplacer_Evict r =
           (Some (last (filter (is_evictable r) (cache_list r))),
            r\<lparr>access_count := (access_count r)(last (filter (is_evictable r) (cache_list r)) := 0),
              cache_list := remove1 (last (filter (is_evictable r) (cache_list r))) (cache_list r),
              is_evictable := (is_evictable r)(last (filter (is_evictable r) (cache_list r)) := False),
              curr_size := curr_size r - 1\<rparr>)"
    using ne e by (simp add: LRUKReplacer_Evict_def first_evictable_rev size_t_decrement_pos)
qed

lemma replacer_invI:
  assumes "distinct (history_list r @ cache_list r)"
    and "\<And>f. f \<in> set (history_list r) \<Longrightarrow> 0 < access_count r f \<and> access_count r f < replacer_k r"
    and "\<And>f. f \<in> set (cache_list r) \<Longrightarrow> 0 < access_count r f \<and> replacer_k r \<le> access_count r f"
    and "\<And>f. 0 < access_count r f \<Longrightarrow> f \<in> set (history_list r @ cache_list r)"
    and "\<And>f. is_evictable r f \<Longrightarrow> f \<in> set (history_list r @ cache_list r)"
    and "curr_size r = length (filter (is_evictable r) (history_list r @ cache_list r))"
  shows "replacer_inv r"
  using assms unfolding replacer_inv_def by blast

lemma replacer_invD:
  assumes "replacer_inv r"
  shows "distinct (history_list r @ cache_list r)"
    and "f \<in> set (history_list r) \<Longrightarrow> 0 < access_count r f \<and> access_count r f < replacer_k r"
    and "f \<in> set (cache_list r) \<Longrightarrow> 0 < access_count r f \<and> replacer_k r \<le> access_count r f"
    and "0 < access_count r f \<Longrightarrow> f \<in> set (history_list r @ cache_list r)"
    and "is_evictable r f \<Longrightarrow> f \<in> set (history_list r @ cache_list r)"
    and "curr_size r = length (filter (is_evictable r) (history_list r @ cache_list r))"
  using assms unfolding replacer_inv_def by blast+

lemma evicted_inv:
  assumes inv: "replacer_inv r" and f: "f \<in> set (history_list r @ cache_list r)" "is_evictable r f"
  shows "replacer_inv
           (r\<lparr>access_count := (access_count r)(f := 0),
              history_list := remove1 f (history_list r),
              cache_list := remove1 f (cache_list r),
              is_evictable := (is_evictable r)(f := False),
              curr_size := curr_size r - 1\<rparr>)"
proof (rule replacer_invI)
  let ?r = "r\<lparr>access_count := (access_count r)(f := 0),
              history_list := remove1 f (history_list r),
              cache_list := remove1 f (cache_list r),
              is_evictable := (is_evictable r)(f := False),
              curr_size := curr_size r - 1\<rparr>"
  note d = replacer_invD[OF inv]
  have rm: "remove1 f (history_list r) @ remove1 f (cache_list r) = remove1 f (history_list r @ cache_list r)"
  proof (cases "f \<in> set (history_list r)")
    case True
    then have "f \<notin> set (cache_list r)" using d(1) by auto
    then show ?thesis using True by (simp add: remove1_append remove1_idem)
  next
    case False
    then show ?thesis by (simp add: remove1_append remove1_idem)
  qed
  have nin: "f \<notin> set (remove1 f (history_list r @ cache_list r))" using d(1) by simp
  show "distinct (history_list ?r @ cache_list ?r)" using d(1) rm by simp
  show "0 < access_count ?r g \<and> access_count ?r g < replacer_k ?r" if "g \<in> set (history_list ?r)" for g
    using that d(1) d(2)[of g] by (auto dest: notin_set_remove1)
  show "0 < access_count ?r g \<and> replacer_k ?r \<le> access_count ?r g" if "g \<in> set (cache_list ?r)" for g
    using that d(1) d(3)[of g] by (auto dest: notin_set_remove1)
  show "g \<in> set (history_list ?r @ cache_list ?r)" if "0 < access_count ?r g" for g
    using that d(4)[of g] d(1) by (auto split: if_splits)
  show "g \<in> set (history_list ?r @ cache_list ?r)" if "is_evictable ?r g" for g
    using that d(5)[of g] d(1) by (auto split: if_splits)
  have "length (filter ((is_evictable r)(f := False)) (remove1 f (history_list r @ cache_list r)))
          = length (filter (is_evictable r) (remove1 f (history_list r @ cache_list r)))"
    using nin by (simp add: filter_upd_notin)
  moreover have "Suc (length (filter (is_evictable r) (remove1 f (history_list r @ cache_list r))))
          = length (filter (is_evictable r) (history_list r @ cache_list r))"
    using d(1) f by (intro length_filter_remove1) simp_all
  ultimately show "curr_size ?r = length (filter (is_evictable ?r) (history_list ?r @ cache_list ?r))"
    using d(6) rm by (simp del: filter_append)
qed

lemma Evict_inv:
  assumes inv: "replacer_inv r"
  shows "replacer_inv (snd (LRUKReplacer_Evict r))"
proof (cases "filter (is_evictable r) (history_list r) = []")
  case h: True
  show ?thesis
  proof (cases "filter (is_evictable r) (cache_list r) = []")
    case True
    then show ?thesis using Evict_none[OF inv h] inv by simp
  next
    case False
    let ?f = "last (filter (is_evictable r) (cache_list r))"
    have f: "?f \<in> set (cache_list r)" "is_evictable r ?f" using last_filter_in[OF False] by simp_all
    then have "?f \<notin> set (history_list r)" using replacer_invD(1)[OF inv] by auto
    then have "remove1 ?f (history_list r) = history_list r" by (simp add: remove1_idem)
    then show ?thesis
      using evicted_inv[OF inv, of ?f] f Evict_cache(1)[OF inv h False] by simp
  qed
next
  case False
  let ?f = "last (filter (is_evictable r) (history_list r))"
  have f: "?f \<in> set (history_list r)" "is_evictable r ?f" using last_filter_in[OF False] by simp_all
  then have "?f \<notin> set (cache_list r)" using replacer_invD(1)[OF inv] by auto
  then have "remove1 ?f (cache_list r) = cache_list r" by (simp add: remove1_idem)
  then show ?thesis
    using evicted_inv[OF inv, of ?f] f Evict_history(1)[OF inv False] by simp
qed

lemma new_replacer_inv: "replacer_inv (LRUKReplacer_new n k)"
  by (simp add: replacer_inv_def LRUKReplacer_new_def)

lemma SetEvictable_inv:
  assumes inv: "replacer_inv r" and s: "LRUKReplacer_SetEvictable r f b = Inr r'"
  shows "replacer_inv r'"
proof (cases "access_count r f = 0")
  case True
  then show ?thesis using s inv by (simp add: LRUKReplacer_SetEvictable_def split: if_splits)
next
  case False
  note d = replacer_invD[OF inv]
  have fin: "f \<in> set (history_list r @ cache_list r)" using d(4)[of f] False by simp
  show ?thesis
  proof (cases "is_evictable r f = b")
    case True
    then have "r' = r"
      using s False by (auto simp: LRUKReplacer_SetEvictable_def Let_def filter_upd_same split: if_splits)
    then show ?thesis using inv by simp
  next
    case ne: False
    show ?thesis
    proof (cases b)
      case True
      then have r': "r' = r\<lparr>curr_size := curr_size r + 1, is_evictable := (is_evictable r)(f := True)\<rparr>"
        using s False ne by (auto simp: LRUKReplacer_SetEvictable_def Let_def split: if_splits)
      have "length (filter ((is_evictable r)(f := True)) (history_list r @ cache_list r))
              = Suc (length (filter (is_evictable r) (history_list r @ cache_list r)))"
        using d(1) fin ne True by (intro length_filter_set_True) simp_all
      then show ?thesis unfolding r'
        using d fin by (intro replacer_invI) (auto simp del: filter_append split: if_splits)
    next
      case False
      then have ev: "is_evictable r f" using ne by simp
      have cnt: "Suc (length (filter ((is_evictable r)(f := False)) (history_list r @ cache_list r)))
              = length (filter (is_evictable r) (history_list r @ cache_list r))"
        using d(1) fin ev by (intro length_filter_set_False) simp_all
      then have pos: "0 < curr_size r" using d(6) by linarith
      have r': "r' = r\<lparr>curr_size := curr_size r - 1, is_evictable := (is_evictable r)(f := False)\<rparr>"
        using s \<open>access_count r f \<noteq> 0\<close> ev False pos
        by (auto simp: LRUKReplacer_SetEvictable_def Let_def size_t_decrement_pos split: if_splits)
      show ?thesis unfolding r'
        using d fin cnt by (intro replacer_invI) (auto simp del: filter_append split: if_splits)
    qed
  qed
qed

lemma Remove_replacer_inv:
  assumes inv: "replacer_inv r" and s: "LRUKReplacer_Remove r f = Inr r'"
    and ok: "is_evictable r f \<or> access_count r f = 0"
  shows "replacer_inv r'"
proof (cases "access_count r f = 0")
  case True
  then show ?thesis using s inv by (simp add: LRUKReplacer_Remove_def split: if_splits)
next
  case False
  note d = replacer_invD[OF inv]
  have ev: "is_evictable r f" using ok False by simp
  have fin: "f \<in> set (history_list r @ cache_list r)" using d(5)[OF ev] .
  have cnt: "curr_size r = length (filter (is_evictable r) (history_list r @ cache_list r))" using d(6) .
  have "filter (is_evictable r) (history_list r @ cache_list r) \<noteq> []"
    using fin ev by (simp only: filter_empty_conv) blast 
  then have pos: "0 < curr_size r" using cnt by simp
  show ?thesis
  proof (cases "replacer_k r \<le> access_count r f")
    case True
    then have "f \<notin> set (history_list r)" using d(2)[of f] by auto
    then have "remove1 f (history_list r) = history_list r" by (simp add: remove1_idem)
    moreover have "r' = r\<lparr>access_count := (access_count r)(f := 0),
        cache_list := remove1 f (cache_list r),
        is_evictable := (is_evictable r)(f := False), curr_size := curr_size r - 1\<rparr>"
      using s False True pos
      by (auto simp: LRUKReplacer_Remove_def Let_def size_t_decrement_pos split: if_splits)
    ultimately show ?thesis using evicted_inv[OF inv fin ev] by simp
  next
    case k: False
    then have "f \<notin> set (cache_list r)" using d(3)[of f] by auto
    then have "remove1 f (cache_list r) = cache_list r" by (simp add: remove1_idem)
    moreover have "r' = r\<lparr>access_count := (access_count r)(f := 0),
        history_list := remove1 f (history_list r),
        is_evictable := (is_evictable r)(f := False), curr_size := curr_size r - 1\<rparr>"
      using s False k pos
      by (auto simp: LRUKReplacer_Remove_def Let_def size_t_decrement_pos split: if_splits)
    ultimately show ?thesis using evicted_inv[OF inv fin ev] by simp
  qed
qed

lemma length_filter_remove1_gen:
  "x \<in> set xs \<Longrightarrow>
   length (filter P (remove1 x xs)) + (if P x then 1 else 0) = length (filter P xs)"
  by (induction xs) auto

lemma replacer_inv_mk:
  assumes "distinct (h @ c)"
    and "\<And>g. g \<in> set h \<Longrightarrow> 0 < ac g \<and> ac g < k"
    and "\<And>g. g \<in> set c \<Longrightarrow> 0 < ac g \<and> k \<le> ac g"
    and "\<And>g. 0 < ac g \<Longrightarrow> g \<in> set (h @ c)"
    and "\<And>g. ev g \<Longrightarrow> g \<in> set (h @ c)"
    and "n = length (filter ev (h @ c))"
    and "history_list r = h" "cache_list r = c" "access_count r = ac" "is_evictable r = ev"
      "curr_size r = n" "replacer_k r = k"
  shows "replacer_inv r"
  using assms unfolding replacer_inv_def by blast

lemma RecordAccess_inv:
  assumes inv: "replacer_inv r" and s: "LRUKReplacer_RecordAccess r f = Inr r'"
  shows "replacer_inv r'"
proof -
  note d = replacer_invD[OF inv]
  let ?c = "access_count r f + 1"
  let ?ac = "(access_count r)(f := ?c)"
  have ok: "\<not> f > int (replacer_size r)"
    using s by (auto simp: LRUKReplacer_RecordAccess_def split: if_splits)
  have dh: "distinct (history_list r)" and dc: "distinct (cache_list r)"
    and disj: "set (history_list r) \<inter> set (cache_list r) = {}"
    using d(1) by auto
  consider (eq) "?c = replacer_k r" | (gt) "?c > replacer_k r" | (lt) "?c < replacer_k r"
    by linarith
  then show ?thesis
  proof cases
    case eq
    have r': "r' = r\<lparr>access_count := ?ac,
        history_list := (if f \<in> set (history_list r) then remove1 f (history_list r) else history_list r),
        cache_list := f # cache_list r\<rparr>"
      using s ok eq by (auto simp: LRUKReplacer_RecordAccess_def Let_def cong: if_cong)
    have nc: "f \<notin> set (cache_list r)" using d(3)[of f] eq by auto
    have rm: "(if f \<in> set (history_list r) then remove1 f (history_list r) else history_list r)
                = remove1 f (history_list r)"
      by (simp add: remove1_idem)
    have cnt: "length (filter (is_evictable r) (remove1 f (history_list r) @ f # cache_list r))
                 = length (filter (is_evictable r) (history_list r @ cache_list r))"
    proof (cases "f \<in> set (history_list r)")
      case True
      then show ?thesis using length_filter_remove1_gen[of f "history_list r" "is_evictable r"] by auto
    next
      case False
      then have "\<not> is_evictable r f" using d(5)[of f] nc by auto
      then show ?thesis using False by (simp add: remove1_idem)
    qed
    show ?thesis unfolding r' rm
    proof (rule replacer_inv_mk[where h = "remove1 f (history_list r)" and c = "f # cache_list r" and ac = ?ac
          and ev = "is_evictable r" and n = "curr_size r" and k = "replacer_k r"])
      show "distinct (remove1 f (history_list r) @ f # cache_list r)"
        using dh dc disj nc by (auto dest: notin_set_remove1)
      show "0 < ?ac g \<and> ?ac g < replacer_k r" if "g \<in> set (remove1 f (history_list r))" for g
        using that dh d(2)[of g] by (auto dest: notin_set_remove1)
      show "0 < ?ac g \<and> replacer_k r \<le> ?ac g" if "g \<in> set (f # cache_list r)" for g
        using that d(3)[of g] eq nc by auto
      show "g \<in> set (remove1 f (history_list r) @ f # cache_list r)" if "0 < ?ac g" for g
        using that d(4)[of g] by (cases "g = f") auto
      show "g \<in> set (remove1 f (history_list r) @ f # cache_list r)" if "is_evictable r g" for g
        using that d(5)[of g] by (cases "g = f") auto
      show "curr_size r = length (filter (is_evictable r) (remove1 f (history_list r) @ f # cache_list r))"
        using cnt d(6) by simp
    qed simp_all
  next
    case gt
    have r': "r' = r\<lparr>access_count := ?ac,
        cache_list := f # (if f \<in> set (cache_list r) then remove1 f (cache_list r) else cache_list r)\<rparr>"
      using s ok gt by (auto simp: LRUKReplacer_RecordAccess_def Let_def cong: if_cong)
    have nh: "f \<notin> set (history_list r)" using d(2)[of f] gt by auto
    have rm: "(if f \<in> set (cache_list r) then remove1 f (cache_list r) else cache_list r)
                = remove1 f (cache_list r)"
      by (simp add: remove1_idem)
    have cnt: "length (filter (is_evictable r) (history_list r @ f # remove1 f (cache_list r)))
                 = length (filter (is_evictable r) (history_list r @ cache_list r))"
    proof (cases "f \<in> set (cache_list r)")
      case True
      then show ?thesis using length_filter_remove1_gen[of f "cache_list r" "is_evictable r"] by auto
    next
      case False
      then have "\<not> is_evictable r f" using d(5)[of f] nh by auto
      then show ?thesis using False by (simp add: remove1_idem)
    qed
    show ?thesis unfolding r' rm
    proof (rule replacer_inv_mk[where h = "history_list r" and c = "f # remove1 f (cache_list r)" and ac = ?ac
          and ev = "is_evictable r" and n = "curr_size r" and k = "replacer_k r"])
      show "distinct (history_list r @ f # remove1 f (cache_list r))"
        using dh dc disj nh by (auto dest: notin_set_remove1)
      show "0 < ?ac g \<and> ?ac g < replacer_k r" if "g \<in> set (history_list r)" for g
        using that d(2)[of g] nh by auto
      show "0 < ?ac g \<and> replacer_k r \<le> ?ac g" if "g \<in> set (f # remove1 f (cache_list r))" for g
        using that d(3)[of g] gt by (auto dest: notin_set_remove1)
      show "g \<in> set (history_list r @ f # remove1 f (cache_list r))" if "0 < ?ac g" for g
        using that d(4)[of g] by (cases "g = f") auto
      show "g \<in> set (history_list r @ f # remove1 f (cache_list r))" if "is_evictable r g" for g
        using that d(5)[of g] by (cases "g = f") auto
      show "curr_size r = length (filter (is_evictable r) (history_list r @ f # remove1 f (cache_list r)))"
        using cnt d(6) by simp
    qed simp_all
  next
    case lt
    have nc: "f \<notin> set (cache_list r)" using d(3)[of f] lt by auto
    show ?thesis
    proof (cases "f \<in> set (history_list r)")
      case True
      have r': "r' = r\<lparr>access_count := ?ac\<rparr>"
        using s ok lt True by (auto simp: LRUKReplacer_RecordAccess_def Let_def cong: if_cong)
      show ?thesis unfolding r'
      proof (rule replacer_inv_mk[where h = "history_list r" and c = "cache_list r" and ac = ?ac
          and ev = "is_evictable r" and n = "curr_size r" and k = "replacer_k r"])
        show "distinct (history_list r @ cache_list r)" using d(1) .
        show "0 < ?ac g \<and> ?ac g < replacer_k r" if "g \<in> set (history_list r)" for g
          using that d(2)[of g] lt by auto
        show "0 < ?ac g \<and> replacer_k r \<le> ?ac g" if "g \<in> set (cache_list r)" for g
          using that d(3)[of g] nc by auto
        show "g \<in> set (history_list r @ cache_list r)" if "0 < ?ac g" for g
          using that d(4)[of g] True by (cases "g = f") auto
        show "g \<in> set (history_list r @ cache_list r)" if "is_evictable r g" for g
          using that d(5)[of g] by simp
        show "curr_size r = length (filter (is_evictable r) (history_list r @ cache_list r))"
          using d(6) .
      qed simp_all
    next
      case False
      have r': "r' = r\<lparr>access_count := ?ac, history_list := f # history_list r\<rparr>"
        using s ok lt False by (auto simp: LRUKReplacer_RecordAccess_def Let_def cong: if_cong)
      have nev: "\<not> is_evictable r f" using d(5)[of f] nc False by auto
      show ?thesis unfolding r'
      proof (rule replacer_inv_mk[where h = "f # history_list r" and c = "cache_list r" and ac = ?ac
          and ev = "is_evictable r" and n = "curr_size r" and k = "replacer_k r"])
        show "distinct ((f # history_list r) @ cache_list r)" using d(1) nc False by auto
        show "0 < ?ac g \<and> ?ac g < replacer_k r" if "g \<in> set (f # history_list r)" for g
          using that d(2)[of g] lt by auto
        show "0 < ?ac g \<and> replacer_k r \<le> ?ac g" if "g \<in> set (cache_list r)" for g
          using that d(3)[of g] nc by auto
        show "g \<in> set ((f # history_list r) @ cache_list r)" if "0 < ?ac g" for g
          using that d(4)[of g] by (cases "g = f") auto
        show "g \<in> set ((f # history_list r) @ cache_list r)" if "is_evictable r g" for g
          using that d(5)[of g] by auto
        show "curr_size r = length (filter (is_evictable r) ((f # history_list r) @ cache_list r))"
          using d(6) nev by simp
      qed simp_all
    qed
  qed
qed

lemma scenario_S2_inv: "replacer_inv (projr scenario_S2)"
  by (simp add: scenario_S2_def replacer_inv_def LRUKReplacer_new_def LRUKReplacer_RecordAccess_def
        LRUKReplacer_SetEvictable_def Let_def)

text \<open>
  Claim C2. In every replacer state that satisfies the invariant, \<open>Evict\<close> returns the
  evictable frame nearest to the least-recent end (the back) of the history list if the
  history list has an evictable frame, otherwise the evictable frame nearest to the back
  of the cache list; it returns nothing exactly when no frame is evictable, and then the
  state is unchanged; on success the returned frame was evictable, and afterwards its
  access count is 0, its evictable flag is cleared, it is on neither list, and \<open>Size\<close>
  has dropped by one. The invariant holds again afterwards. With \<open>k = 2\<close> and 3 frames,
  after the accesses 1, 1, 2, 2, 2, 3 and \<open>SetEvictable\<close> of 1, 2 and 3, \<open>Evict\<close> returns 3.
\<close>

theorem Evict_prefers_history_then_cache:
  assumes "replacer_inv r"
  shows "(filter (is_evictable r) (history_list r) \<noteq> [] \<longrightarrow>
            fst (LRUKReplacer_Evict r) = Some (last (filter (is_evictable r) (history_list r)))) \<and>
         (filter (is_evictable r) (history_list r) = [] \<and>
          filter (is_evictable r) (cache_list r) \<noteq> [] \<longrightarrow>
            fst (LRUKReplacer_Evict r) = Some (last (filter (is_evictable r) (cache_list r)))) \<and>
         (fst (LRUKReplacer_Evict r) = None \<longleftrightarrow> (\<forall>f. \<not> is_evictable r f)) \<and>
         (fst (LRUKReplacer_Evict r) = None \<longrightarrow> snd (LRUKReplacer_Evict r) = r) \<and>
         (\<forall>f. fst (LRUKReplacer_Evict r) = Some f \<longrightarrow>
            is_evictable r f \<and>
            access_count (snd (LRUKReplacer_Evict r)) f = 0 \<and>
            \<not> is_evictable (snd (LRUKReplacer_Evict r)) f \<and>
            f \<notin> set (history_list (snd (LRUKReplacer_Evict r))) \<and>
            f \<notin> set (cache_list (snd (LRUKReplacer_Evict r))) \<and>
            LRUKReplacer_Size (snd (LRUKReplacer_Evict r)) + 1 = LRUKReplacer_Size r) \<and>
         replacer_inv (snd (LRUKReplacer_Evict r)) \<and>
         (case scenario_S2 of Inl e \<Rightarrow> None | Inr r \<Rightarrow> fst (LRUKReplacer_Evict r)) = Some 3"
proof -
  note d = replacer_invD[OF assms]
  let ?h = "filter (is_evictable r) (history_list r)"
  let ?c = "filter (is_evictable r) (cache_list r)"
  have none_iff: "(?h = [] \<and> ?c = []) = (\<forall>f. \<not> is_evictable r f)"
  proof
    assume e: "?h = [] \<and> ?c = []"
    show "\<forall>f. \<not> is_evictable r f"
    proof (intro allI notI)
      fix f assume f: "is_evictable r f"
      then have "f \<in> set (history_list r @ cache_list r)" by (rule d(5))
      then have "f \<in> set ?h \<or> f \<in> set ?c" using f by auto
      then show False using e by simp
    qed
  next
    assume "\<forall>f. \<not> is_evictable r f"
    then show "?h = [] \<and> ?c = []" by (simp add: filter_empty_conv)
  qed
  have 1: "fst (LRUKReplacer_Evict r) = Some (last ?h)" if "?h \<noteq> []"
    using Evict_history(1)[OF assms that] by simp
  have 2: "fst (LRUKReplacer_Evict r) = Some (last ?c)" if "?h = []" "?c \<noteq> []"
    using Evict_cache(1)[OF assms that] by simp
  have 3: "LRUKReplacer_Evict r = (None, r)" if "?h = []" "?c = []"
    using Evict_none[OF assms that] .
  have 4: "(fst (LRUKReplacer_Evict r) = None) = (\<forall>f. \<not> is_evictable r f)"
    unfolding none_iff [symmetric] using 1 2 3 by (cases "?h = []"; cases "?c = []") simp_all
  have 5: "snd (LRUKReplacer_Evict r) = r" if "fst (LRUKReplacer_Evict r) = None"
    using that 1 2 3 by (cases "?h = []"; cases "?c = []") simp_all
  have 6: "is_evictable r f \<and>
            access_count (snd (LRUKReplacer_Evict r)) f = 0 \<and>
            \<not> is_evictable (snd (LRUKReplacer_Evict r)) f \<and>
            f \<notin> set (history_list (snd (LRUKReplacer_Evict r))) \<and>
            f \<notin> set (cache_list (snd (LRUKReplacer_Evict r))) \<and>
            LRUKReplacer_Size (snd (LRUKReplacer_Evict r)) + 1 = LRUKReplacer_Size r"
    if f: "fst (LRUKReplacer_Evict r) = Some f" for f
  proof (cases "?h = []")
    case False
    have ff: "f = last ?h" using 1[OF False] f by simp
    have in_h: "f \<in> set (history_list r)" "is_evictable r f"
      using last_filter_in[OF False] ff by simp_all
    then have "f \<notin> set (cache_list r)" using d(1) by auto
    then show ?thesis
      using Evict_history[OF assms False] in_h d(1) ff
      by (simp add: LRUKReplacer_Size_def)
  next
    case True
    then have ne: "?c \<noteq> []" using f 3 by (cases "?c = []") simp_all
    have ff: "f = last ?c" using 2[OF True ne] f by simp
    have in_c: "f \<in> set (cache_list r)" "is_evictable r f"
      using last_filter_in[OF ne] ff by simp_all
    then have "f \<notin> set (history_list r)" using d(1) by auto
    then show ?thesis
      using Evict_cache[OF assms True ne] in_c d(1) ff
      by (simp add: LRUKReplacer_Size_def)
  qed
  have 7: "replacer_inv (snd (LRUKReplacer_Evict r))" using assms by (rule Evict_inv)
  have 8: "(case scenario_S2 of Inl e \<Rightarrow> None | Inr r \<Rightarrow> fst (LRUKReplacer_Evict r)) = Some 3"
    unfolding scenario_S2_def by code_simp
  show ?thesis using 1 2 4 5 6 7 8 by blast
qed

theorem Evict_prefers_history_then_cache_witness:
  "replacer_inv (projr scenario_S2) \<and>
   history_list (projr scenario_S2) = [3] \<and> cache_list (projr scenario_S2) = [2, 1] \<and>
   fst (LRUKReplacer_Evict (projr scenario_S2)) = Some 3 \<and>
   LRUKReplacer_Size (snd (LRUKReplacer_Evict (projr scenario_S2))) = 2"
proof -
  have inv: "replacer_inv (projr scenario_S2)" by (rule scenario_S2_inv)
  have l: "history_list (projr scenario_S2) = [3]" "cache_list (projr scenario_S2) = [2, 1]"
    "LRUKReplacer_Size (projr scenario_S2) = 3" "is_evictable (projr scenario_S2) 3"
    unfolding scenario_S2_def by code_simp+
  from Evict_prefers_history_then_cache[OF inv] l inv show ?thesis by simp
qed

text \<open>
  Claim C9 asks for an invalid-argument error on every frame id outside \<open>[0, num_frames)\<close>.
  The three operations test \<open>frame_id > replacer_size_\<close>: ids above \<open>num_frames\<close> raise,
\<close>

lemma frame_id_above_num_frames_raises:
  assumes "frame_id > int (replacer_size r)"
  shows "LRUKReplacer_RecordAccess r frame_id = Inl std_exception"
    and "LRUKReplacer_SetEvictable r frame_id b = Inl std_exception"
    and "LRUKReplacer_Remove r frame_id = Inl std_exception"
  using assms
  by (simp_all add: LRUKReplacer_RecordAccess_def LRUKReplacer_SetEvictable_def LRUKReplacer_Remove_def)

text \<open>
  Claim C9, at the frame id equal to \<open>num_frames\<close>: on a replacer for 3 frames,
  \<open>RecordAccess(3)\<close> does not raise and puts frame 3 on the history list,
  \<open>SetEvictable(3, true)\<close> then makes it evictable (size 1), and \<open>Remove(3)\<close> then
  removes it: none of the three raises, and each changes the state.
\<close>

theorem frame_id_equal_to_num_frames_is_accepted:
  "map_sum id (\<lambda>r. (history_list r, access_count r 3)) (LRUKReplacer_RecordAccess (LRUKReplacer_new 3 2) 3)
     = Inr ([3], 1) \<and>
   map_sum id (\<lambda>r. (LRUKReplacer_Size r, is_evictable r 3))
     (calls [\<lambda>r. LRUKReplacer_RecordAccess r 3, \<lambda>r. LRUKReplacer_SetEvictable r 3 True]
        (LRUKReplacer_new 3 2)) = Inr (1, True) \<and>
   map_sum id (\<lambda>r. (history_list r, access_count r 3))
     (calls [\<lambda>r. LRUKReplacer_RecordAccess r 3, \<lambda>r. LRUKReplacer_SetEvictable r 3 True,
             \<lambda>r. LRUKReplacer_Remove r 3]
        (LRUKReplacer_new 3 2)) = Inr ([], 0)"
  by code_simp

section \<open>Buffer pool manager: proofs\<close>

subsection \<open>The page table\<close>

lemma mod64_page_id:
  assumes "is_page_id a"
  shows "a mod 2 ^ 64 = (if 0 \<le> a then a else a + 2 ^ 64)"
proof (cases "0 \<le> a")
  case True
  have "a < 2 ^ 64" using assms unfolding is_page_id_def by simp
  then show ?thesis using True by simp
next
  case False
  have "- (2 ^ 64) \<le> a" using assms unfolding is_page_id_def by simp
  then have "0 \<le> a + 2 ^ 64" "a + 2 ^ 64 < 2 ^ 64" using False by simp_all
  then have "(a + 2 ^ 64) mod 2 ^ 64 = a + 2 ^ 64" by (rule mod_pos_pos_trivial)
  then show ?thesis using False by simp
qed

lemma hash_int_inj:
  assumes "is_page_id a" "is_page_id b" "hash_int a = hash_int b"
  shows "a = b"
proof -
  have "0 \<le> a mod 2 ^ 64" "0 \<le> b mod 2 ^ 64" by simp_all
  then have "a mod 2 ^ 64 = b mod 2 ^ 64"
    using assms(3) unfolding hash_int_def by linarith
  then have "(if 0 \<le> a then a else a + 2 ^ 64) = (if 0 \<le> b then b else b + 2 ^ 64)"
    unfolding mod64_page_id[OF assms(1)] mod64_page_id[OF assms(2)] .
  moreover have "a < 2 ^ 31" "b < 2 ^ 31" "- (2 ^ 31) \<le> a" "- (2 ^ 31) \<le> b"
    using assms(1,2) unfolding is_page_id_def by simp_all
  ultimately show ?thesis by (simp split: if_splits)
qed

lemma length_filter_key_le1:
  "distinct (map fst xs) \<Longrightarrow> length (filter (\<lambda>it. fst it = k) xs) \<le> 1"
  by (induction xs) (force simp: filter_empty_conv)+

lemma Find_list_of_mem:
  "distinct (map fst xs) \<Longrightarrow> (k, v) \<in> set xs \<Longrightarrow> Bucket_Find_list k xs = Some v"
  by (induction xs) force+

lemma item_Find:
  assumes inv: "dir_inv t" and items: "items_inv h t"
    and i: "i < length (dir t)" and m: "(k, v) \<in> set (b_list (heap t (dir t ! i)))"
  shows "ExtendibleHashTable_Find h t k = Some v"
proof -
  let ?L = "b_depth (heap t (dir t ! i))"
  have idx: "IndexOf h t k < length (dir t)" using inv by (rule IndexOf_less)
  have "h k mod 2 ^ ?L = i mod 2 ^ ?L" using items_invD(4)[OF items i m] by simp
  moreover have "IndexOf h t k mod 2 ^ ?L = h k mod 2 ^ ?L"
    using dir_invD(2)[OF inv i] by (simp add: IndexOf_mod mod_mod_pow2)
  ultimately have "dir t ! IndexOf h t k = dir t ! i"
    using dir_invD(3)[OF inv i idx] by simp
  then show ?thesis
    using Find_list_of_mem[OF items_invD(3)[OF items i] m]
    by (simp add: ExtendibleHashTable_Find_def Bucket_Find_def)
qed

lemma table_ok_Insert:
  assumes ok: "table_ok t" and k: "is_page_id k"
  shows "\<exists>t'. ExtendibleHashTable_Insert hash_int t k v = Some t' \<and> table_ok t' \<and>
              (\<forall>k'. ExtendibleHashTable_Find hash_int t' k' =
                      (if k' = k then Some v else ExtendibleHashTable_Find hash_int t k'))"
proof -
  have inv: "dir_inv t" and items: "items_inv hash_int t" and bs: "2 \<le> bucket_size t"
    and keys: "\<And>k. ExtendibleHashTable_Find hash_int t k \<noteq> None \<Longrightarrow> is_page_id k"
    using ok by (auto simp: table_ok_def)
  let ?xs = "b_list (heap t (dir t ! IndexOf hash_int t k))"
  have idx: "IndexOf hash_int t k < length (dir t)" using inv by (rule IndexOf_less)
  have "filter (\<lambda>it. hash_int (fst it) = hash_int k) ?xs = filter (\<lambda>it. fst it = k) ?xs"
  proof (rule filter_cong[OF refl])
    fix it assume m: "it \<in> set ?xs"
    then have "(fst it, snd it) \<in> set ?xs" by simp
    from item_Find[OF inv items idx this] have "is_page_id (fst it)" using keys by simp
    then show "(hash_int (fst it) = hash_int k) = (fst it = k)" using hash_int_inj k by blast
  qed
  moreover have "length (filter (\<lambda>it. fst it = k) ?xs) \<le> 1"
    using items_invD(3)[OF items idx] by (rule length_filter_key_le1)
  ultimately have "length (filter (\<lambda>it. hash_int (fst it) = hash_int k) ?xs) < bucket_size t"
    using bs by simp
  from Insert_returns[OF inv items this, of v]
  obtain t' where t': "ExtendibleHashTable_Insert hash_int t k v = Some t'" by blast
  note i = Insert_inv[OF t' inv items]
  have F: "ExtendibleHashTable_Find hash_int t' k' =
             (if k' = k then Some v else ExtendibleHashTable_Find hash_int t k')" for k'
    using i(4) Insert_Find_other[OF t' inv items, of k'] by simp
  have "is_page_id k'" if "ExtendibleHashTable_Find hash_int t' k' \<noteq> None" for k'
    using that keys[of k'] k unfolding F by (cases "k' = k") simp_all
  then have "table_ok t'" unfolding table_ok_def using i(1,2) bs i(3) by simp
  then show ?thesis using t' F by blast
qed

lemma table_ok_Remove:
  assumes ok: "table_ok t"
  shows "table_ok (snd (ExtendibleHashTable_Remove hash_int t k))"
    and "ExtendibleHashTable_Find hash_int (snd (ExtendibleHashTable_Remove hash_int t k)) k' =
           (if k' = k then None else ExtendibleHashTable_Find hash_int t k')"
proof -
  have inv: "dir_inv t" and items: "items_inv hash_int t" and bs: "2 \<le> bucket_size t"
    and keys: "\<And>k. ExtendibleHashTable_Find hash_int t k \<noteq> None \<Longrightarrow> is_page_id k"
    using ok by (auto simp: table_ok_def)
  show F: "ExtendibleHashTable_Find hash_int (snd (ExtendibleHashTable_Remove hash_int t k)) k' =
           (if k' = k then None else ExtendibleHashTable_Find hash_int t k')" for k'
    using Remove_Find[OF inv items] .
  have "bucket_size (snd (ExtendibleHashTable_Remove hash_int t k)) = bucket_size t"
    by (simp add: ExtendibleHashTable_Remove_def Let_def split: prod.splits)
  moreover have "is_page_id k'"
    if "ExtendibleHashTable_Find hash_int (snd (ExtendibleHashTable_Remove hash_int t k)) k' \<noteq> None" for k'
    using that keys[of k'] unfolding F by (cases "k' = k") simp_all
  ultimately show "table_ok (snd (ExtendibleHashTable_Remove hash_int t k))"
    unfolding table_ok_def using Remove_inv[OF inv items] bs by simp
qed

lemma table_ok_new: "2 \<le> bsz \<Longrightarrow> table_ok (ExtendibleHashTable_new bsz)"
proof -
  let ?t = "ExtendibleHashTable_new bsz :: (int, int) ExtendibleHashTable"
  have "ExtendibleHashTable_Find hash_int ?t k = None" for k :: int
    by (simp add: ExtendibleHashTable_new_def ExtendibleHashTable_Find_def Bucket_Find_def
        Bucket_new_def IndexOf_def)
  moreover have "bucket_size (ExtendibleHashTable_new bsz :: (int, int) ExtendibleHashTable) = bsz"
    by (simp add: ExtendibleHashTable_new_def)
  ultimately show ?thesis if "2 \<le> bsz"
    unfolding table_ok_def using new_dir_inv[of bsz] new_items_inv[of hash_int bsz] that by simp
qed

subsection \<open>The replacer as the pool uses it\<close>

lemma RecordAccess_facts:
  assumes f: "f \<le> int (replacer_size r)"
  shows "\<exists>r'. LRUKReplacer_RecordAccess r f = Inr r' \<and> replacer_size r' = replacer_size r \<and>
              is_evictable r' = is_evictable r \<and>
              access_count r' = (access_count r)(f := access_count r f + 1) \<and>
              set (history_list r' @ cache_list r') \<subseteq> insert f (set (history_list r @ cache_list r))"
proof -
  have "\<not> f > int (replacer_size r)" using f by simp
  then show ?thesis
    unfolding LRUKReplacer_RecordAccess_def Let_def
    by (auto dest: notin_set_remove1 set_remove1_subset[THEN subsetD])
qed

lemma SetEvictable_facts:
  assumes f: "f \<le> int (replacer_size r)" and a: "0 < access_count r f"
  shows "\<exists>r'. LRUKReplacer_SetEvictable r f b = Inr r' \<and> replacer_size r' = replacer_size r \<and>
              is_evictable r' = (is_evictable r)(f := b) \<and>
              access_count r' = access_count r \<and>
              history_list r' = history_list r \<and> cache_list r' = cache_list r"
proof -
  have "\<not> f > int (replacer_size r)" using f by simp
  then show ?thesis using a
    unfolding LRUKReplacer_SetEvictable_def Let_def by simp
qed

lemma touch_frame_facts:
  assumes inv: "replacer_inv r" and f: "f \<le> int (replacer_size r)"
  shows "\<exists>r'. touch_frame r f = Inr r' \<and> replacer_inv r' \<and> replacer_size r' = replacer_size r \<and>
              is_evictable r' = (is_evictable r)(f := False) \<and>
              access_count r' = (access_count r)(f := access_count r f + 1) \<and>
              set (history_list r' @ cache_list r') \<subseteq> insert f (set (history_list r @ cache_list r))"
proof -
  from RecordAccess_facts[OF f] obtain r1 where
    r1: "LRUKReplacer_RecordAccess r f = Inr r1" "replacer_size r1 = replacer_size r"
      "is_evictable r1 = is_evictable r"
      "access_count r1 = (access_count r)(f := access_count r f + 1)"
      "set (history_list r1 @ cache_list r1) \<subseteq> insert f (set (history_list r @ cache_list r))"
    by blast
  have inv1: "replacer_inv r1" using inv r1(1) by (rule RecordAccess_inv)
  have f1: "f \<le> int (replacer_size r1)" using f r1(2) by simp
  have a1: "0 < access_count r1 f" using r1(4) by simp
  from SetEvictable_facts[OF f1 a1, of False] obtain r2 where
    r2: "LRUKReplacer_SetEvictable r1 f False = Inr r2" "replacer_size r2 = replacer_size r1"
      "is_evictable r2 = (is_evictable r1)(f := False)"
      "access_count r2 = access_count r1"
      "history_list r2 = history_list r1" "cache_list r2 = cache_list r1"
    by blast
  have inv2: "replacer_inv r2" using inv1 r2(1) by (rule SetEvictable_inv)
  have "touch_frame r f = Inr r2" by (simp add: touch_frame_def r1(1) r2(1))
  moreover have "set (history_list r2 @ cache_list r2) \<subseteq> insert f (set (history_list r @ cache_list r))"
    using r1(5) r2(5,6) by simp
  ultimately show ?thesis using inv2 r1(2,3,4) r2(2,3,4) by simp
qed

lemma Evict_facts:
  assumes inv: "replacer_inv r" and g: "is_evictable r g"
  shows "\<exists>f r'. LRUKReplacer_Evict r = (Some f, r') \<and> is_evictable r f \<and>
              f \<in> set (history_list r @ cache_list r) \<and>
              replacer_inv r' \<and> replacer_size r' = replacer_size r \<and>
              is_evictable r' = (is_evictable r)(f := False) \<and>
              access_count r' = (access_count r)(f := 0) \<and>
              set (history_list r' @ cache_list r') \<subseteq> set (history_list r @ cache_list r)"
proof -
  have gin: "g \<in> set (history_list r @ cache_list r)" using replacer_invD(5)[OF inv g] .
  have inv': "replacer_inv (snd (LRUKReplacer_Evict r))" using inv by (rule Evict_inv)
  show ?thesis
  proof (cases "filter (is_evictable r) (history_list r) = []")
    case False
    let ?f = "last (filter (is_evictable r) (history_list r))"
    note E = Evict_history(1)[OF inv False]
    have "?f \<in> set (history_list r) \<and> is_evictable r ?f" using False by (rule last_filter_in)
    moreover have "set (remove1 ?f (history_list r)) \<subseteq> set (history_list r)"
      by (rule set_remove1_subset)
    ultimately show ?thesis using inv' unfolding E by auto
  next
    case True
    then have "g \<notin> set (history_list r)" using g by (auto simp: filter_empty_conv)
    then have "g \<in> set (cache_list r)" using gin by simp
    then have ne: "filter (is_evictable r) (cache_list r) \<noteq> []"
      using g by (auto simp: filter_empty_conv)
    let ?f = "last (filter (is_evictable r) (cache_list r))"
    note E = Evict_cache(1)[OF inv True ne]
    have "?f \<in> set (cache_list r) \<and> is_evictable r ?f" using ne by (rule last_filter_in)
    moreover have "set (remove1 ?f (cache_list r)) \<subseteq> set (cache_list r)"
      by (rule set_remove1_subset)
    ultimately show ?thesis using inv' unfolding E by auto
  qed
qed

subsection \<open>Frames and the invariant of the pool\<close>

lemma set_frame_fields [simp]:
  "pool_size (set_frame s f p) = pool_size s"
  "page_table (set_frame s f p) = page_table s"
  "replacer (set_frame s f p) = replacer s"
  "free_list (set_frame s f p) = free_list s"
  "next_page_id (set_frame s f p) = next_page_id s"
  "disk (set_frame s f p) = disk s"
  "length (pages (set_frame s f p)) = length (pages s)"
  "pages (set_frame s f p) = (pages s)[nat f := p]"
  by (simp_all add: set_frame_def)

lemma is_frame_cong: "pool_size s' = pool_size s \<Longrightarrow> is_frame s' f = is_frame s f"
  by (simp add: is_frame_def)

lemma is_frame_nat: "is_frame s f \<Longrightarrow> nat f < pool_size s \<and> 0 \<le> f"
  unfolding is_frame_def by linarith

lemma frame_upd:
  assumes "pages s' = (pages s)[nat f := p]" "length (pages s) = pool_size s"
    "is_frame s f" "is_frame s g"
  shows "frame s' g = (if g = f then p else frame s g)"
proof -
  have "nat f < length (pages s)" "0 \<le> f" "0 \<le> g"
    using assms(2) is_frame_nat[OF assms(3)] is_frame_nat[OF assms(4)] by simp_all
  then show ?thesis using assms(1) by (simp add: frame_def nth_list_update)
qed

lemma frame_same:
  "pages s' = pages s \<Longrightarrow> frame s' g = frame s g"
  by (simp add: frame_def)

lemma every_frame_pinned_iff:
  assumes "length (pages s) = pool_size s"
  shows "every_frame_pinned s = (\<forall>f. is_frame s f \<longrightarrow> pin_count (frame s f) \<noteq> 0)"
proof
  assume e: "every_frame_pinned s"
  show "\<forall>f. is_frame s f \<longrightarrow> pin_count (frame s f) \<noteq> 0"
  proof (intro allI impI)
    fix f assume f: "is_frame s f"
    then have "nat f < length (pages s)" using assms is_frame_nat[of s f] by simp
    then show "pin_count (frame s f) \<noteq> 0"
      using e assms by (simp add: every_frame_pinned_def list_all_length frame_def)
  qed
next
  assume a: "\<forall>f. is_frame s f \<longrightarrow> pin_count (frame s f) \<noteq> 0"
  have "pin_count (pages s ! i) \<noteq> 0" if "i < length (pages s)" for i
  proof -
    have "is_frame s (int i)" using that assms by (simp add: is_frame_def)
    then have "pin_count (frame s (int i)) \<noteq> 0" using a by blast
    then show ?thesis by (simp add: frame_def)
  qed
  then show "every_frame_pinned s"
    using assms by (simp add: every_frame_pinned_def list_all_length)
qed

lemma bpm_invD:
  assumes "bpm_inv s"
  shows "length (pages s) = pool_size s"
    and "replacer_size (replacer s) = pool_size s"
    and "replacer_inv (replacer s)"
    and "distinct (free_list s)"
    and "f \<in> set (free_list s) \<Longrightarrow> is_frame s f"
    and "f \<in> set (history_list (replacer s) @ cache_list (replacer s)) \<Longrightarrow> is_frame s f"
    and "is_frame s f \<Longrightarrow> 0 \<le> pin_count (frame s f)"
    and "is_frame s f \<Longrightarrow> pin_count (frame s f) = 0 \<Longrightarrow>
           f \<in> set (free_list s) \<or> is_evictable (replacer s) f"
    and "table_ok (page_table s)"
    and "ExtendibleHashTable_Find hash_int (page_table s) p = Some f \<Longrightarrow>
           is_frame s f \<and> page_id (frame s f) = p \<and>
           0 < access_count (replacer s) f \<and> f \<notin> set (free_list s)"
  using assms unfolding bpm_inv_def by blast+

lemma bpm_invI:
  assumes "length (pages s) = pool_size s"
    and "replacer_size (replacer s) = pool_size s"
    and "replacer_inv (replacer s)"
    and "distinct (free_list s)"
    and "\<And>f. f \<in> set (free_list s) \<Longrightarrow> is_frame s f"
    and "\<And>f. f \<in> set (history_list (replacer s) @ cache_list (replacer s)) \<Longrightarrow> is_frame s f"
    and "\<And>f. is_frame s f \<Longrightarrow> 0 \<le> pin_count (frame s f)"
    and "\<And>f. is_frame s f \<Longrightarrow> pin_count (frame s f) = 0 \<Longrightarrow>
           f \<in> set (free_list s) \<or> is_evictable (replacer s) f"
    and "table_ok (page_table s)"
    and "\<And>p f. ExtendibleHashTable_Find hash_int (page_table s) p = Some f \<Longrightarrow>
           is_frame s f \<and> page_id (frame s f) = p \<and>
           0 < access_count (replacer s) f \<and> f \<notin> set (free_list s)"
  shows "bpm_inv s"
  unfolding bpm_inv_def using assms by blast

lemma frame_taken_invD:
  assumes "frame_taken_inv s f"
  shows "is_frame s f"
    and "length (pages s) = pool_size s"
    and "replacer_size (replacer s) = pool_size s"
    and "replacer_inv (replacer s)"
    and "distinct (free_list s)"
    and "f \<notin> set (free_list s)"
    and "g \<in> set (free_list s) \<Longrightarrow> is_frame s g"
    and "g \<in> set (history_list (replacer s) @ cache_list (replacer s)) \<Longrightarrow> is_frame s g"
    and "is_frame s g \<Longrightarrow> g \<noteq> f \<Longrightarrow> 0 \<le> pin_count (frame s g)"
    and "is_frame s g \<Longrightarrow> g \<noteq> f \<Longrightarrow> pin_count (frame s g) = 0 \<Longrightarrow>
           g \<in> set (free_list s) \<or> is_evictable (replacer s) g"
    and "table_ok (page_table s)"
    and "ExtendibleHashTable_Find hash_int (page_table s) p = Some g \<Longrightarrow>
           g \<noteq> f \<and> is_frame s g \<and> page_id (frame s g) = p \<and>
           0 < access_count (replacer s) g \<and> g \<notin> set (free_list s)"
  using assms unfolding frame_taken_inv_def by blast+

lemma frame_taken_invI:
  assumes "is_frame s f"
    and "length (pages s) = pool_size s"
    and "replacer_size (replacer s) = pool_size s"
    and "replacer_inv (replacer s)"
    and "distinct (free_list s)"
    and "f \<notin> set (free_list s)"
    and "\<And>g. g \<in> set (free_list s) \<Longrightarrow> is_frame s g"
    and "\<And>g. g \<in> set (history_list (replacer s) @ cache_list (replacer s)) \<Longrightarrow> is_frame s g"
    and "\<And>g. is_frame s g \<Longrightarrow> g \<noteq> f \<Longrightarrow> 0 \<le> pin_count (frame s g)"
    and "\<And>g. is_frame s g \<Longrightarrow> g \<noteq> f \<Longrightarrow> pin_count (frame s g) = 0 \<Longrightarrow>
           g \<in> set (free_list s) \<or> is_evictable (replacer s) g"
    and "table_ok (page_table s)"
    and "\<And>p g. ExtendibleHashTable_Find hash_int (page_table s) p = Some g \<Longrightarrow>
           g \<noteq> f \<and> is_frame s g \<and> page_id (frame s g) = p \<and>
           0 < access_count (replacer s) g \<and> g \<notin> set (free_list s)"
  shows "frame_taken_inv s f"
  unfolding frame_taken_inv_def using assms by blast

subsection \<open>Choosing a frame\<close>

lemma last_notin_butlast: "distinct xs \<Longrightarrow> xs \<noteq> [] \<Longrightarrow> last xs \<notin> set (butlast xs)"
  by (induction xs) (auto dest: in_set_butlastD)

lemma in_butlast: "x \<in> set xs \<Longrightarrow> x \<noteq> last xs \<Longrightarrow> x \<in> set (butlast xs)"
  by (induction xs) (auto split: if_splits)

lemma Page_not_dirty: "\<not> is_dirty p \<Longrightarrow> p\<lparr>is_dirty := False, data := d\<rparr> = p\<lparr>data := d\<rparr>"
  by (cases p) simp

lemma take_frame_free:
  assumes inv: "bpm_inv s" and fl: "free_list s \<noteq> []"
  shows "take_frame s = (Some (last (free_list s)), s\<lparr>free_list := butlast (free_list s)\<rparr>)"
    and "frame_taken_inv (s\<lparr>free_list := butlast (free_list s)\<rparr>) (last (free_list s))"
proof -
  note d = bpm_invD[OF inv]
  let ?f = "last (free_list s)"
  let ?s1 = "s\<lparr>free_list := butlast (free_list s)\<rparr>"
  show "take_frame s = (Some ?f, ?s1)" using fl by (simp add: take_frame_def)
  have fin: "?f \<in> set (free_list s)" using fl by simp
  have fr: "frame ?s1 g = frame s g" for g by (simp add: frame_def)
  have isf: "is_frame ?s1 g = is_frame s g" for g by (simp add: is_frame_def)
  show "frame_taken_inv ?s1 ?f"
  proof (rule frame_taken_invI)
    show "is_frame ?s1 ?f" unfolding isf using d(5)[OF fin] .
    show "length (pages ?s1) = pool_size ?s1" using d(1) by simp
    show "replacer_size (replacer ?s1) = pool_size ?s1" using d(2) by simp
    show "replacer_inv (replacer ?s1)" using d(3) by simp
    show "distinct (free_list ?s1)" using d(4) by (simp add: distinct_butlast)
    show "?f \<notin> set (free_list ?s1)" using last_notin_butlast[OF d(4) fl] by simp
    show "is_frame ?s1 g" if "g \<in> set (free_list ?s1)" for g
      unfolding isf using that d(5)[of g] by (auto dest: in_set_butlastD)
    show "is_frame ?s1 g"
      if "g \<in> set (history_list (replacer ?s1) @ cache_list (replacer ?s1))" for g
      unfolding isf using that d(6)[of g] by simp
    show "0 \<le> pin_count (frame ?s1 g)" if "is_frame ?s1 g" "g \<noteq> ?f" for g
      unfolding fr using that(1) d(7)[of g] unfolding isf by simp
    show "g \<in> set (free_list ?s1) \<or> is_evictable (replacer ?s1) g"
      if "is_frame ?s1 g" "g \<noteq> ?f" "pin_count (frame ?s1 g) = 0" for g
    proof -
      have "g \<in> set (free_list s) \<or> is_evictable (replacer s) g"
        using d(8)[of g] that(1,3) unfolding isf fr by simp
      then show ?thesis using that(2) by (auto intro: in_butlast)
    qed
    show "table_ok (page_table ?s1)" using d(9) by simp
    show "g \<noteq> ?f \<and> is_frame ?s1 g \<and> page_id (frame ?s1 g) = p \<and>
           0 < access_count (replacer ?s1) g \<and> g \<notin> set (free_list ?s1)"
      if "ExtendibleHashTable_Find hash_int (page_table ?s1) p = Some g" for p g
    proof -
      have "ExtendibleHashTable_Find hash_int (page_table s) p = Some g" using that by simp
      note x = d(10)[OF this]
      have "g \<noteq> ?f" using x fin by auto
      moreover have "g \<notin> set (butlast (free_list s))" using x by (auto dest: in_set_butlastD)
      ultimately show ?thesis unfolding isf fr using x by simp
    qed
  qed
qed

lemma take_frame_evict:
  assumes inv: "bpm_inv s" and fl: "free_list s = []" and np: "\<not> every_frame_pinned s"
  shows "\<exists>f s1. take_frame s = (Some f, s1) \<and> frame_taken_inv s1 f \<and>
           LRUKReplacer_Evict (replacer s) = (Some f, replacer s1) \<and>
           pool_size s1 = pool_size s \<and> next_page_id s1 = next_page_id s \<and>
           free_list s1 = [] \<and>
           pages s1 = (pages s)[nat f := (frame s f)\<lparr>is_dirty := False, data := 0\<rparr>] \<and>
           disk s1 = (if is_dirty (frame s f)
                      then (disk s)(page_id (frame s f) := data (frame s f)) else disk s) \<and>
           page_table s1 =
             snd (ExtendibleHashTable_Remove hash_int (page_table s) (page_id (frame s f)))"
proof -
  note d = bpm_invD[OF inv]
  obtain g where g: "is_frame s g" "pin_count (frame s g) = 0"
    using np unfolding every_frame_pinned_iff[OF d(1)] by blast
  have "is_evictable (replacer s) g" using d(8)[OF g] fl by simp
  from Evict_facts[OF d(3) this] obtain f r' where
    E: "LRUKReplacer_Evict (replacer s) = (Some f, r')" and ev: "is_evictable (replacer s) f"
    and fin: "f \<in> set (history_list (replacer s) @ cache_list (replacer s))"
    and r': "replacer_inv r'" "replacer_size r' = replacer_size (replacer s)"
      "is_evictable r' = (is_evictable (replacer s))(f := False)"
      "access_count r' = (access_count (replacer s))(f := 0)"
      "set (history_list r' @ cache_list r') \<subseteq> set (history_list (replacer s) @ cache_list (replacer s))"
    by blast
  have isf: "is_frame s f" using d(6)[OF fin] .
  have nf: "nat f < length (pages s)" using is_frame_nat[OF isf] d(1) by simp
  let ?p = "(frame s f)\<lparr>is_dirty := False, data := 0\<rparr>"
  let ?pt = "snd (ExtendibleHashTable_Remove hash_int (page_table s) (page_id (frame s f)))"
  obtain s1 where tf: "take_frame s = (Some f, s1)"
    using fl E by (simp add: take_frame_def Let_def)
  have s1: "pool_size s1 = pool_size s" "next_page_id s1 = next_page_id s" "free_list s1 = []"
    "replacer s1 = r'" "page_table s1 = ?pt"
    "disk s1 = (if is_dirty (frame s f)
                then (disk s)(page_id (frame s f) := data (frame s f)) else disk s)"
    using tf fl E by (auto simp: take_frame_def Let_def frame_def set_frame_def)
  have pg: "pages s1 = (pages s)[nat f := ?p]"
    using tf fl E nf by (auto simp: take_frame_def Let_def frame_def set_frame_def Page_not_dirty)
  have isf1: "is_frame s1 g = is_frame s g" for g using s1(1) by (rule is_frame_cong)
  have fr: "frame s1 g = (if g = f then ?p else frame s g)" if "is_frame s g" for g
    using pg d(1) isf that by (rule frame_upd)
  have F: "ExtendibleHashTable_Find hash_int (page_table s1) p =
             (if p = page_id (frame s f) then None
              else ExtendibleHashTable_Find hash_int (page_table s) p)" for p
    unfolding s1(5) using table_ok_Remove(2)[OF d(9)] .
  have "frame_taken_inv s1 f"
  proof (rule frame_taken_invI)
    show "is_frame s1 f" unfolding isf1 by (rule isf)
    show "length (pages s1) = pool_size s1" using pg d(1) s1(1) by simp
    show "replacer_size (replacer s1) = pool_size s1" using s1(1,4) r'(2) d(2) by simp
    show "replacer_inv (replacer s1)" using s1(4) r'(1) by simp
    show "distinct (free_list s1)" using s1(3) by simp
    show "f \<notin> set (free_list s1)" using s1(3) by simp
    show "is_frame s1 g" if "g \<in> set (free_list s1)" for g using that s1(3) by simp
    show "is_frame s1 g"
      if "g \<in> set (history_list (replacer s1) @ cache_list (replacer s1))" for g
      unfolding isf1 using that r'(5) s1(4) d(6)[of g] by blast
    show "0 \<le> pin_count (frame s1 g)" if "is_frame s1 g" "g \<noteq> f" for g
      using that d(7)[of g] fr[of g] unfolding isf1 by simp
    show "g \<in> set (free_list s1) \<or> is_evictable (replacer s1) g"
      if "is_frame s1 g" "g \<noteq> f" "pin_count (frame s1 g) = 0" for g
      using that d(8)[of g] fr[of g] fl r'(3) s1(4) unfolding isf1 by simp
    show "table_ok (page_table s1)" unfolding s1(5) using d(9) by (rule table_ok_Remove(1))
    show "g \<noteq> f \<and> is_frame s1 g \<and> page_id (frame s1 g) = p \<and>
           0 < access_count (replacer s1) g \<and> g \<notin> set (free_list s1)"
      if "ExtendibleHashTable_Find hash_int (page_table s1) p = Some g" for p g
    proof -
      have p: "p \<noteq> page_id (frame s f)"
        and "ExtendibleHashTable_Find hash_int (page_table s) p = Some g"
        using that unfolding F by (simp_all split: if_splits)
      note x = d(10)[OF this(2)]
      have "g \<noteq> f" using x p by auto
      then show ?thesis using x fr[of g] r'(4) s1(3,4) unfolding isf1 by simp
    qed
  qed
  then show ?thesis using tf E s1 pg by auto
qed

subsection \<open>Installing a page in the chosen frame\<close>

lemma install_inv:
  assumes t: "frame_taken_inv s1 f" and pid: "is_page_id pid"
    and ps: "pool_size s' = pool_size s1"
    and pg: "pages s' = (pages s1)[nat f := p]" and p: "page_id p = pid" "0 < pin_count p"
    and fl: "free_list s' = free_list s1"
    and tb: "table_ok (page_table s')"
      "\<And>k. ExtendibleHashTable_Find hash_int (page_table s') k =
             (if k = pid then Some f else ExtendibleHashTable_Find hash_int (page_table s1) k)"
    and rp: "replacer_inv (replacer s')" "replacer_size (replacer s') = replacer_size (replacer s1)"
      "is_evictable (replacer s') = (is_evictable (replacer s1))(f := False)"
      "access_count (replacer s') = (access_count (replacer s1))(f := access_count (replacer s1) f + 1)"
      "set (history_list (replacer s') @ cache_list (replacer s'))
         \<subseteq> insert f (set (history_list (replacer s1) @ cache_list (replacer s1)))"
  shows "bpm_inv s'"
proof (rule bpm_invI)
  note d = frame_taken_invD[OF t]
  have isf: "is_frame s' g = is_frame s1 g" for g using ps by (rule is_frame_cong)
  have fr: "frame s' g = (if g = f then p else frame s1 g)" if "is_frame s1 g" for g
    using pg d(2) d(1) that by (rule frame_upd)
  show "length (pages s') = pool_size s'" using pg d(2) ps by simp
  show "replacer_size (replacer s') = pool_size s'" using rp(2) d(3) ps by simp
  show "replacer_inv (replacer s')" by (rule rp(1))
  show "distinct (free_list s')" using fl d(5) by simp
  show "is_frame s' g" if "g \<in> set (free_list s')" for g
    unfolding isf using that fl d(7)[of g] by simp
  show "is_frame s' g"
    if "g \<in> set (history_list (replacer s') @ cache_list (replacer s'))" for g
  proof -
    have "g = f \<or> g \<in> set (history_list (replacer s1) @ cache_list (replacer s1))"
      using that rp(5) by blast
    then show ?thesis unfolding isf using d(1) d(8)[of g] by blast
  qed
  show "0 \<le> pin_count (frame s' g)" if "is_frame s' g" for g
    using that fr[of g] d(9)[of g] p(2) unfolding isf by (cases "g = f") simp_all
  show "g \<in> set (free_list s') \<or> is_evictable (replacer s') g"
    if "is_frame s' g" "pin_count (frame s' g) = 0" for g
  proof (cases "g = f")
    case True
    then show ?thesis using that fr[of g] p(2) unfolding isf by simp
  next
    case False
    then show ?thesis using that fr[of g] d(10)[of g] fl rp(3) unfolding isf by simp
  qed
  show "table_ok (page_table s')" by (rule tb(1))
  show "is_frame s' g \<and> page_id (frame s' g) = k \<and>
         0 < access_count (replacer s') g \<and> g \<notin> set (free_list s')"
    if F: "ExtendibleHashTable_Find hash_int (page_table s') k = Some g" for k g
  proof (cases "k = pid")
    case True
    then have "g = f" using F unfolding tb(2) by simp
    then show ?thesis using True d(1) d(6) fr[of f] p(1) fl rp(4) unfolding isf by simp
  next
    case False
    then have "ExtendibleHashTable_Find hash_int (page_table s1) k = Some g"
      using F unfolding tb(2) by simp
    note x = d(12)[OF this]
    then show ?thesis using fr[of g] fl rp(4) unfolding isf by simp
  qed
qed

lemma NewPgImp_step:
  assumes np: "\<not> every_frame_pinned s" and pid: "is_page_id (next_page_id s)"
    and tf: "take_frame s = (Some f, s1)" and ti: "frame_taken_inv s1 f"
    and np1: "next_page_id s1 = next_page_id s"
  shows "\<exists>s'. NewPgImp s = Inr (Some (next_page_id s, f), s') \<and> bpm_inv s' \<and>
           pool_size s' = pool_size s1 \<and> next_page_id s' = next_page_id s + 1 \<and>
           pages s' = (pages s1)[nat f := (frame s1 f)\<lparr>page_id := next_page_id s, pin_count := 1\<rparr>] \<and>
           free_list s' = free_list s1 \<and> disk s' = disk s1 \<and>
           (\<forall>k. ExtendibleHashTable_Find hash_int (page_table s') k =
                  (if k = next_page_id s then Some f
                   else ExtendibleHashTable_Find hash_int (page_table s1) k)) \<and>
           is_evictable (replacer s') = (is_evictable (replacer s1))(f := False) \<and>
           access_count (replacer s') =
             (access_count (replacer s1))(f := access_count (replacer s1) f + 1)"
proof -
  note d = frame_taken_invD[OF ti]
  from table_ok_Insert[OF d(11) pid, of f] obtain pt where
    pt: "ExtendibleHashTable_Insert hash_int (page_table s1) (next_page_id s) f = Some pt"
      "table_ok pt"
      "\<And>k. ExtendibleHashTable_Find hash_int pt k =
             (if k = next_page_id s then Some f
              else ExtendibleHashTable_Find hash_int (page_table s1) k)"
    by blast
  have "f \<le> int (replacer_size (replacer s1))" using d(1) d(3) by (simp add: is_frame_def)
  from touch_frame_facts[OF d(4) this] obtain r where
    r: "touch_frame (replacer s1) f = Inr r" "replacer_inv r"
      "replacer_size r = replacer_size (replacer s1)"
      "is_evictable r = (is_evictable (replacer s1))(f := False)"
      "access_count r = (access_count (replacer s1))(f := access_count (replacer s1) f + 1)"
      "set (history_list r @ cache_list r)
         \<subseteq> insert f (set (history_list (replacer s1) @ cache_list (replacer s1)))"
    by blast
  let ?p = "(frame s1 f)\<lparr>page_id := next_page_id s, pin_count := 1\<rparr>"
  obtain s' where N: "NewPgImp s = Inr (Some (next_page_id s, f), s')"
    using np tf pt(1) r(1) np1 by (simp add: NewPgImp_def Let_def)
  have s': "pool_size s' = pool_size s1" "next_page_id s' = next_page_id s + 1"
    "pages s' = (pages s1)[nat f := ?p]" "free_list s' = free_list s1" "disk s' = disk s1"
    "page_table s' = pt" "replacer s' = r"
    using N np tf pt(1) r(1) np1 by (auto simp: NewPgImp_def Let_def frame_def)
  have "bpm_inv s'"
  proof (rule install_inv[OF ti pid s'(1) s'(3) _ _ s'(4)])
    show "page_id ?p = next_page_id s" "0 < pin_count ?p" by simp_all
    show "table_ok (page_table s')" using pt(2) s'(6) by simp
    show "ExtendibleHashTable_Find hash_int (page_table s') k =
             (if k = next_page_id s then Some f
              else ExtendibleHashTable_Find hash_int (page_table s1) k)" for k
      unfolding s'(6) by (rule pt(3))
    show "replacer_inv (replacer s')" unfolding s'(7) by (rule r(2))
    show "replacer_size (replacer s') = replacer_size (replacer s1)" unfolding s'(7) by (rule r(3))
    show "is_evictable (replacer s') = (is_evictable (replacer s1))(f := False)"
      unfolding s'(7) by (rule r(4))
    show "access_count (replacer s') =
            (access_count (replacer s1))(f := access_count (replacer s1) f + 1)"
      unfolding s'(7) by (rule r(5))
    show "set (history_list (replacer s') @ cache_list (replacer s'))
            \<subseteq> insert f (set (history_list (replacer s1) @ cache_list (replacer s1)))"
      unfolding s'(7) by (rule r(6))
  qed
  then show ?thesis using N s'(1-5) pt(3) r(4,5) unfolding s'(6) [symmetric] s'(7) [symmetric]
    by simp
qed

lemma FetchPgImp_miss_step:
  assumes miss: "ExtendibleHashTable_Find hash_int (page_table s) pid = None"
    and np: "\<not> every_frame_pinned s" and pid: "is_page_id pid"
    and tf: "take_frame s = (Some f, s1)" and ti: "frame_taken_inv s1 f"
  shows "\<exists>s'. FetchPgImp s pid = Inr (Some f, s') \<and> bpm_inv s' \<and>
           pool_size s' = pool_size s1 \<and> next_page_id s' = next_page_id s1 \<and>
           pages s' = (pages s1)[nat f := (frame s1 f)\<lparr>page_id := pid, pin_count := 1,
                                                        data := disk s1 pid\<rparr>] \<and>
           free_list s' = free_list s1 \<and> disk s' = disk s1 \<and>
           (\<forall>k. ExtendibleHashTable_Find hash_int (page_table s') k =
                  (if k = pid then Some f
                   else ExtendibleHashTable_Find hash_int (page_table s1) k)) \<and>
           is_evictable (replacer s') = (is_evictable (replacer s1))(f := False) \<and>
           access_count (replacer s') =
             (access_count (replacer s1))(f := access_count (replacer s1) f + 1)"
proof -
  note d = frame_taken_invD[OF ti]
  from table_ok_Insert[OF d(11) pid, of f] obtain pt where
    pt: "ExtendibleHashTable_Insert hash_int (page_table s1) pid f = Some pt"
      "table_ok pt"
      "\<And>k. ExtendibleHashTable_Find hash_int pt k =
             (if k = pid then Some f
              else ExtendibleHashTable_Find hash_int (page_table s1) k)"
    by blast
  have "f \<le> int (replacer_size (replacer s1))" using d(1) d(3) by (simp add: is_frame_def)
  from touch_frame_facts[OF d(4) this] obtain r where
    r: "touch_frame (replacer s1) f = Inr r" "replacer_inv r"
      "replacer_size r = replacer_size (replacer s1)"
      "is_evictable r = (is_evictable (replacer s1))(f := False)"
      "access_count r = (access_count (replacer s1))(f := access_count (replacer s1) f + 1)"
      "set (history_list r @ cache_list r)
         \<subseteq> insert f (set (history_list (replacer s1) @ cache_list (replacer s1)))"
    by blast
  have nf: "nat f < length (pages s1)" using is_frame_nat[OF d(1)] d(2) by simp
  let ?p = "(frame s1 f)\<lparr>page_id := pid, pin_count := 1, data := disk s1 pid\<rparr>"
  obtain s' where N: "FetchPgImp s pid = Inr (Some f, s')"
    using miss np tf pt(1) r(1) by (simp add: FetchPgImp_def Let_def)
  have s': "pool_size s' = pool_size s1" "next_page_id s' = next_page_id s1"
    "pages s' = (pages s1)[nat f := ?p]" "free_list s' = free_list s1" "disk s' = disk s1"
    "page_table s' = pt" "replacer s' = r"
    using N miss np tf pt(1) r(1) nf by (auto simp: FetchPgImp_def Let_def frame_def)
  have "bpm_inv s'"
  proof (rule install_inv[OF ti pid s'(1) s'(3) _ _ s'(4)])
    show "page_id ?p = pid" "0 < pin_count ?p" by simp_all
    show "table_ok (page_table s')" using pt(2) s'(6) by simp
    show "ExtendibleHashTable_Find hash_int (page_table s') k =
             (if k = pid then Some f
              else ExtendibleHashTable_Find hash_int (page_table s1) k)" for k
      unfolding s'(6) by (rule pt(3))
    show "replacer_inv (replacer s')" unfolding s'(7) by (rule r(2))
    show "replacer_size (replacer s') = replacer_size (replacer s1)" unfolding s'(7) by (rule r(3))
    show "is_evictable (replacer s') = (is_evictable (replacer s1))(f := False)"
      unfolding s'(7) by (rule r(4))
    show "access_count (replacer s') =
            (access_count (replacer s1))(f := access_count (replacer s1) f + 1)"
      unfolding s'(7) by (rule r(5))
    show "set (history_list (replacer s') @ cache_list (replacer s'))
            \<subseteq> insert f (set (history_list (replacer s1) @ cache_list (replacer s1)))"
      unfolding s'(7) by (rule r(6))
  qed
  then show ?thesis using N s'(1-5) pt(3) r(4,5) unfolding s'(6) [symmetric] s'(7) [symmetric]
    by simp
qed

subsection \<open>Unpinning, and fetching a resident page\<close>

lemma UnpinPgImp_fail:
  assumes "\<not> (\<exists>f. ExtendibleHashTable_Find hash_int (page_table s) pid = Some f \<and>
                 pid \<noteq> INVALID_PAGE_ID \<and> 0 < pin_count (frame s f))"
  shows "UnpinPgImp s pid dirty = Inr (False, s)"
  using assms by (auto simp: UnpinPgImp_def split: option.splits)

lemma UnpinPgImp_step:
  assumes inv: "bpm_inv s"
    and F: "ExtendibleHashTable_Find hash_int (page_table s) pid = Some f"
    and pid: "pid \<noteq> INVALID_PAGE_ID" and pin: "0 < pin_count (frame s f)"
  shows "\<exists>s' p. UnpinPgImp s pid dirty = Inr (True, s') \<and> bpm_inv s' \<and>
           pages s' = (pages s)[nat f := p] \<and>
           pin_count p = pin_count (frame s f) - 1 \<and>
           is_dirty p = (is_dirty (frame s f) \<or> dirty) \<and>
           page_id p = page_id (frame s f) \<and> data p = data (frame s f) \<and>
           pool_size s' = pool_size s \<and> free_list s' = free_list s \<and>
           next_page_id s' = next_page_id s \<and> disk s' = disk s \<and>
           page_table s' = page_table s \<and>
           access_count (replacer s') = access_count (replacer s) \<and>
           history_list (replacer s') = history_list (replacer s) \<and>
           cache_list (replacer s') = cache_list (replacer s) \<and>
           is_evictable (replacer s') =
             (if pin_count (frame s f) = 1 then (is_evictable (replacer s))(f := True)
              else is_evictable (replacer s)) \<and>
           (pin_count (frame s f) \<noteq> 1 \<longrightarrow> replacer s' = replacer s)"
proof -
  note d = bpm_invD[OF inv]
  note x = d(10)[OF F]
  have isf: "is_frame s f" using x by simp
  have nf: "nat f < length (pages s)" using is_frame_nat[OF isf] d(1) by simp
  have fle: "f \<le> int (replacer_size (replacer s))" using isf d(2) by (simp add: is_frame_def)
  have ac: "0 < access_count (replacer s) f" using x by simp
  from SetEvictable_facts[OF fle ac, of True] obtain r where
    r: "LRUKReplacer_SetEvictable (replacer s) f True = Inr r"
      "replacer_size r = replacer_size (replacer s)"
      "is_evictable r = (is_evictable (replacer s))(f := True)"
      "access_count r = access_count (replacer s)"
      "history_list r = history_list (replacer s)" "cache_list r = cache_list (replacer s)"
    by blast
  have rinv: "replacer_inv r" using d(3) r(1) by (rule SetEvictable_inv)
  define p where "p = (if dirty then (frame s f)\<lparr>is_dirty := True\<rparr> else frame s f)
                        \<lparr>pin_count := pin_count (frame s f) - 1\<rparr>"
  have p: "pin_count p = pin_count (frame s f) - 1"
    "is_dirty p = (is_dirty (frame s f) \<or> dirty)"
    "page_id p = page_id (frame s f)" "data p = data (frame s f)"
    by (simp_all add: p_def)
  define r' where "r' = (if pin_count (frame s f) = 1 then r else replacer s)"
  have U: "UnpinPgImp s pid dirty = Inr (True, s\<lparr>pages := (pages s)[nat f := p], replacer := r'\<rparr>)"
    using F pid pin nf r(1)
    by (auto simp: UnpinPgImp_def Let_def frame_def set_frame_def p_def r'_def)
  let ?s' = "s\<lparr>pages := (pages s)[nat f := p], replacer := r'\<rparr>"
  have isf': "is_frame ?s' g = is_frame s g" for g by (simp add: is_frame_def)
  have fr: "frame ?s' g = (if g = f then p else frame s g)" if "is_frame s g" for g
    by (rule frame_upd[OF _ d(1) isf that]) simp
  have r': "replacer_inv r'" "replacer_size r' = replacer_size (replacer s)"
    "access_count r' = access_count (replacer s)"
    "history_list r' = history_list (replacer s)" "cache_list r' = cache_list (replacer s)"
    "is_evictable r' = (if pin_count (frame s f) = 1 then (is_evictable (replacer s))(f := True)
              else is_evictable (replacer s))"
    using rinv d(3) r by (simp_all add: r'_def)
  have "bpm_inv ?s'"
  proof (rule bpm_invI)
    show "length (pages ?s') = pool_size ?s'" using d(1) by simp
    show "replacer_size (replacer ?s') = pool_size ?s'" using d(2) r'(2) by simp
    show "replacer_inv (replacer ?s')" using r'(1) by simp
    show "distinct (free_list ?s')" using d(4) by simp
    show "is_frame ?s' g" if "g \<in> set (free_list ?s')" for g
      unfolding isf' using that d(5)[of g] by simp
    show "is_frame ?s' g"
      if "g \<in> set (history_list (replacer ?s') @ cache_list (replacer ?s'))" for g
      unfolding isf' using that d(6)[of g] r'(4,5) by simp
    show "0 \<le> pin_count (frame ?s' g)" if "is_frame ?s' g" for g
      using that fr[of g] d(7)[of g] p(1) pin unfolding isf' by (cases "g = f") simp_all
    show "g \<in> set (free_list ?s') \<or> is_evictable (replacer ?s') g"
      if "is_frame ?s' g" "pin_count (frame ?s' g) = 0" for g
    proof (cases "g = f")
      case True
      then have "pin_count (frame s f) = 1" using that fr[of g] p(1) unfolding isf' by simp
      then show ?thesis using True r'(6) by simp
    next
      case False
      then have "g \<in> set (free_list s) \<or> is_evictable (replacer s) g"
        using that fr[of g] d(8)[of g] unfolding isf' by simp
      then show ?thesis using False r'(6) by auto
    qed
    show "table_ok (page_table ?s')" using d(9) by simp
    show "is_frame ?s' g \<and> page_id (frame ?s' g) = k \<and>
         0 < access_count (replacer ?s') g \<and> g \<notin> set (free_list ?s')"
      if "ExtendibleHashTable_Find hash_int (page_table ?s') k = Some g" for k g
    proof -
      have "ExtendibleHashTable_Find hash_int (page_table s) k = Some g" using that by simp
      note y = d(10)[OF this]
      then show ?thesis using fr[of g] p(3) r'(3) unfolding isf' by (cases "g = f") simp_all
    qed
  qed
  moreover have "pin_count (frame s f) \<noteq> 1 \<longrightarrow> replacer ?s' = replacer s"
    by (simp add: r'_def)
  ultimately show ?thesis using U p r'(3-6) by (intro exI[of _ ?s'] exI[of _ p]) simp
qed

lemma FetchPgImp_hit_step:
  assumes inv: "bpm_inv s"
    and F: "ExtendibleHashTable_Find hash_int (page_table s) pid = Some f"
  shows "\<exists>s'. FetchPgImp s pid = Inr (Some f, s') \<and> bpm_inv s' \<and>
           pages s' = (pages s)[nat f := (frame s f)\<lparr>pin_count := pin_count (frame s f) + 1\<rparr>] \<and>
           pool_size s' = pool_size s \<and> free_list s' = free_list s \<and>
           next_page_id s' = next_page_id s \<and> disk s' = disk s \<and>
           page_table s' = page_table s \<and>
           is_evictable (replacer s') = (is_evictable (replacer s))(f := False)"
proof -
  note d = bpm_invD[OF inv]
  note x = d(10)[OF F]
  have isf: "is_frame s f" using x by simp
  have fle: "f \<le> int (replacer_size (replacer s))" using isf d(2) by (simp add: is_frame_def)
  from touch_frame_facts[OF d(3) fle] obtain r where
    r: "touch_frame (replacer s) f = Inr r" "replacer_inv r"
      "replacer_size r = replacer_size (replacer s)"
      "is_evictable r = (is_evictable (replacer s))(f := False)"
      "access_count r = (access_count (replacer s))(f := access_count (replacer s) f + 1)"
      "set (history_list r @ cache_list r)
         \<subseteq> insert f (set (history_list (replacer s) @ cache_list (replacer s)))"
    by blast
  let ?p = "(frame s f)\<lparr>pin_count := pin_count (frame s f) + 1\<rparr>"
  let ?s' = "s\<lparr>pages := (pages s)[nat f := ?p], replacer := r\<rparr>"
  have U: "FetchPgImp s pid = Inr (Some f, ?s')"
    using F r(1) by (simp add: FetchPgImp_def Let_def set_frame_def)
  have isf': "is_frame ?s' g = is_frame s g" for g by (simp add: is_frame_def)
  have fr: "frame ?s' g = (if g = f then ?p else frame s g)" if "is_frame s g" for g
    by (rule frame_upd[OF _ d(1) isf that]) simp
  have "bpm_inv ?s'"
  proof (rule bpm_invI)
    show "length (pages ?s') = pool_size ?s'" using d(1) by simp
    show "replacer_size (replacer ?s') = pool_size ?s'" using d(2) r(3) by simp
    show "replacer_inv (replacer ?s')" using r(2) by simp
    show "distinct (free_list ?s')" using d(4) by simp
    show "is_frame ?s' g" if "g \<in> set (free_list ?s')" for g
      unfolding isf' using that d(5)[of g] by simp
    show "is_frame ?s' g"
      if "g \<in> set (history_list (replacer ?s') @ cache_list (replacer ?s'))" for g
    proof -
      have "g = f \<or> g \<in> set (history_list (replacer s) @ cache_list (replacer s))"
        using that r(6) by auto
      then show ?thesis unfolding isf' using isf d(6)[of g] by blast
    qed
    show "0 \<le> pin_count (frame ?s' g)" if "is_frame ?s' g" for g
      using that fr[of g] d(7)[of g] unfolding isf' by (cases "g = f") simp_all
    show "g \<in> set (free_list ?s') \<or> is_evictable (replacer ?s') g"
      if "is_frame ?s' g" "pin_count (frame ?s' g) = 0" for g
    proof (cases "g = f")
      case True
      then show ?thesis using that fr[of g] d(7)[of f] unfolding isf' by simp
    next
      case False
      then show ?thesis using that fr[of g] d(8)[of g] r(4) unfolding isf' by simp
    qed
    show "table_ok (page_table ?s')" using d(9) by simp
    show "is_frame ?s' g \<and> page_id (frame ?s' g) = k \<and>
         0 < access_count (replacer ?s') g \<and> g \<notin> set (free_list ?s')"
      if "ExtendibleHashTable_Find hash_int (page_table ?s') k = Some g" for k g
    proof -
      have "ExtendibleHashTable_Find hash_int (page_table s) k = Some g" using that by simp
      note y = d(10)[OF this]
      then show ?thesis using fr[of g] r(5) unfolding isf' by (cases "g = f") simp_all
    qed
  qed
  then show ?thesis using U r(4) by (intro exI[of _ ?s']) simp
qed

subsection \<open>The invariant at construction, flush and delete\<close>

lemma new_bpm_inv:
  assumes "2 \<le> bsz"
  shows "bpm_inv (BufferPoolManagerInstance_new n k bsz dsk)"
proof (rule bpm_invI)
  let ?s = "BufferPoolManagerInstance_new n k bsz dsk"
  have sel: "pool_size ?s = n" "pages ?s = replicate n Page_new"
    "page_table ?s = ExtendibleHashTable_new bsz" "replacer ?s = LRUKReplacer_new n k"
    "free_list ?s = map int [0..<n]"
    by (simp_all add: BufferPoolManagerInstance_new_def)
  have fl: "(f \<in> set (free_list ?s)) = is_frame ?s f" for f
  proof -
    have "(f \<in> int ` {0..<n}) = (0 \<le> f \<and> f < int n)"
    proof
      assume "f \<in> int ` {0..<n}" then show "0 \<le> f \<and> f < int n" by auto
    next
      assume a: "0 \<le> f \<and> f < int n"
      then have "nat f < n" by linarith
      with a have "f = int (nat f)" "nat f \<in> {0..<n}" by simp_all
      then show "f \<in> int ` {0..<n}" by (rule image_eqI)
    qed
    then show ?thesis by (simp add: sel is_frame_def)
  qed
  have F: "ExtendibleHashTable_Find hash_int (page_table ?s) p = None" for p
    by (simp add: sel ExtendibleHashTable_new_def ExtendibleHashTable_Find_def Bucket_Find_def
        Bucket_new_def IndexOf_def)
  have fr: "frame ?s f = Page_new" if "is_frame ?s f" for f
  proof -
    have "nat f < n" using is_frame_nat[OF that] by (simp add: sel)
    then show ?thesis by (simp add: frame_def sel)
  qed
  show "length (pages ?s) = pool_size ?s" by (simp add: sel)
  show "replacer_size (replacer ?s) = pool_size ?s" by (simp add: sel LRUKReplacer_new_def)
  show "replacer_inv (replacer ?s)" unfolding sel by (rule new_replacer_inv)
  show "distinct (free_list ?s)" by (simp add: sel distinct_map)
  show "is_frame ?s f" if "f \<in> set (free_list ?s)" for f using that fl by simp
  show "is_frame ?s f"
    if "f \<in> set (history_list (replacer ?s) @ cache_list (replacer ?s))" for f
    using that by (simp add: sel LRUKReplacer_new_def)
  show "0 \<le> pin_count (frame ?s f)" if "is_frame ?s f" for f
    using fr[OF that] by (simp add: Page_new_def)
  show "f \<in> set (free_list ?s) \<or> is_evictable (replacer ?s) f" if "is_frame ?s f" for f
    using that fl by simp
  show "table_ok (page_table ?s)" unfolding sel using assms by (rule table_ok_new)
  show "is_frame ?s f \<and> page_id (frame ?s f) = p \<and>
         0 < access_count (replacer ?s) f \<and> f \<notin> set (free_list ?s)"
    if "ExtendibleHashTable_Find hash_int (page_table ?s) p = Some f" for p f
    using that F by simp
qed

lemma FlushPgImp_inv:
  assumes inv: "bpm_inv s"
  shows "bpm_inv (snd (FlushPgImp s pid))"
proof (cases "\<exists>f. ExtendibleHashTable_Find hash_int (page_table s) pid = Some f \<and>
                 pid \<noteq> INVALID_PAGE_ID")
  case False
  then have "FlushPgImp s pid = (False, s)"
    by (auto simp: FlushPgImp_def split: option.splits)
  then show ?thesis using inv by simp
next
  case True
  then obtain f where F: "ExtendibleHashTable_Find hash_int (page_table s) pid = Some f"
    and pid: "pid \<noteq> INVALID_PAGE_ID" by blast
  note d = bpm_invD[OF inv]
  note x = d(10)[OF F]
  have isf: "is_frame s f" using x by simp
  let ?p = "(frame s f)\<lparr>is_dirty := False\<rparr>"
  let ?s' = "s\<lparr>disk := (disk s)(pid := data (frame s f)), pages := (pages s)[nat f := ?p]\<rparr>"
  have U: "FlushPgImp s pid = (True, ?s')"
    using F pid by (simp add: FlushPgImp_def Let_def set_frame_def frame_def)
  have isf': "is_frame ?s' g = is_frame s g" for g by (simp add: is_frame_def)
  have fr: "frame ?s' g = (if g = f then ?p else frame s g)" if "is_frame s g" for g
    by (rule frame_upd[OF _ d(1) isf that]) simp
  have "bpm_inv ?s'"
  proof (rule bpm_invI)
    show "length (pages ?s') = pool_size ?s'" using d(1) by simp
    show "replacer_size (replacer ?s') = pool_size ?s'" using d(2) by simp
    show "replacer_inv (replacer ?s')" using d(3) by simp
    show "distinct (free_list ?s')" using d(4) by simp
    show "is_frame ?s' g" if "g \<in> set (free_list ?s')" for g
      unfolding isf' using that d(5)[of g] by simp
    show "is_frame ?s' g"
      if "g \<in> set (history_list (replacer ?s') @ cache_list (replacer ?s'))" for g
      unfolding isf' using that d(6)[of g] by simp
    show "0 \<le> pin_count (frame ?s' g)" if "is_frame ?s' g" for g
      using that fr[of g] d(7)[of g] unfolding isf' by (cases "g = f") simp_all
    show "g \<in> set (free_list ?s') \<or> is_evictable (replacer ?s') g"
      if "is_frame ?s' g" "pin_count (frame ?s' g) = 0" for g
      using that fr[of g] d(8)[of g] unfolding isf' by (cases "g = f") simp_all
    show "table_ok (page_table ?s')" using d(9) by simp
    show "is_frame ?s' g \<and> page_id (frame ?s' g) = k \<and>
         0 < access_count (replacer ?s') g \<and> g \<notin> set (free_list ?s')"
      if "ExtendibleHashTable_Find hash_int (page_table ?s') k = Some g" for k g
    proof -
      have "ExtendibleHashTable_Find hash_int (page_table s) k = Some g" using that by simp
      note y = d(10)[OF this]
      then show ?thesis using fr[of g] unfolding isf' by (cases "g = f") simp_all
    qed
  qed
  then show ?thesis unfolding U by simp
qed

lemma Remove_facts:
  assumes f: "f \<le> int (replacer_size r)" and a: "0 < access_count r f"
  shows "\<exists>r'. LRUKReplacer_Remove r f = Inr r' \<and> replacer_size r' = replacer_size r \<and>
              is_evictable r' = (is_evictable r)(f := False) \<and>
              access_count r' = (access_count r)(f := 0) \<and>
              set (history_list r' @ cache_list r') \<subseteq> set (history_list r @ cache_list r)"
proof -
  have "\<not> f > int (replacer_size r)" using f by simp
  then show ?thesis using a
    unfolding LRUKReplacer_Remove_def Let_def
    by (auto dest: set_remove1_subset[THEN subsetD])
qed

lemma DeletePgImp_inv:
  assumes inv: "bpm_inv s"
  shows "\<exists>b s'. DeletePgImp s pid = Inr (b, s') \<and> bpm_inv s'"
proof (cases "\<exists>f. ExtendibleHashTable_Find hash_int (page_table s) pid = Some f \<and>
                 pid \<noteq> INVALID_PAGE_ID \<and> pin_count (frame s f) \<le> 0")
  case False
  then have "DeletePgImp s pid = Inr (True, s) \<or> DeletePgImp s pid = Inr (False, s)"
    by (auto simp: DeletePgImp_def split: option.splits)
  then show ?thesis using inv by blast
next
  case True
  then obtain f where F: "ExtendibleHashTable_Find hash_int (page_table s) pid = Some f"
    and pid: "pid \<noteq> INVALID_PAGE_ID" and pin: "pin_count (frame s f) \<le> 0" by blast
  note d = bpm_invD[OF inv]
  note x = d(10)[OF F]
  have isf: "is_frame s f" using x by simp
  have pin0: "pin_count (frame s f) = 0" using pin d(7)[OF isf] by simp
  have ev: "is_evictable (replacer s) f" using d(8)[OF isf pin0] x by simp
  have fle: "f \<le> int (replacer_size (replacer s))" using isf d(2) by (simp add: is_frame_def)
  have ac: "0 < access_count (replacer s) f" using x by simp
  from Remove_facts[OF fle ac] obtain r where
    r: "LRUKReplacer_Remove (replacer s) f = Inr r"
      "replacer_size r = replacer_size (replacer s)"
      "is_evictable r = (is_evictable (replacer s))(f := False)"
      "access_count r = (access_count (replacer s))(f := 0)"
      "set (history_list r @ cache_list r)
         \<subseteq> set (history_list (replacer s) @ cache_list (replacer s))"
    by blast
  have rinv: "replacer_inv r" using d(3) r(1) ev by (rule Remove_replacer_inv[OF _ _ disjI1])
  let ?p = "\<lparr>page_id = INVALID_PAGE_ID, pin_count = 0, is_dirty = False, data = 0\<rparr>"
  let ?pt = "snd (ExtendibleHashTable_Remove hash_int (page_table s) pid)"
  obtain s' where U: "DeletePgImp s pid = Inr (True, s')"
    using F pid pin r(1) by (simp add: DeletePgImp_def Let_def)
  have s': "pool_size s' = pool_size s" "pages s' = (pages s)[nat f := ?p]"
    "free_list s' = f # free_list s" "page_table s' = ?pt" "replacer s' = r"
    using U F pid pin r(1) by (auto simp: DeletePgImp_def Let_def)
  have isf': "is_frame s' g = is_frame s g" for g using s'(1) by (rule is_frame_cong)
  have fr: "frame s' g = (if g = f then ?p else frame s g)" if "is_frame s g" for g
    using s'(2) d(1) isf that by (rule frame_upd)
  have FF: "ExtendibleHashTable_Find hash_int (page_table s') k =
             (if k = pid then None else ExtendibleHashTable_Find hash_int (page_table s) k)" for k
    unfolding s'(4) using table_ok_Remove(2)[OF d(9)] .
  have "bpm_inv s'"
  proof (rule bpm_invI)
    show "length (pages s') = pool_size s'" using d(1) s'(1,2) by simp
    show "replacer_size (replacer s') = pool_size s'" using d(2) r(2) s'(1,5) by simp
    show "replacer_inv (replacer s')" using rinv s'(5) by simp
    show "distinct (free_list s')" using d(4) x s'(3) by simp
    show "is_frame s' g" if "g \<in> set (free_list s')" for g
      unfolding isf' using that d(5)[of g] isf s'(3) by auto
    show "is_frame s' g"
      if "g \<in> set (history_list (replacer s') @ cache_list (replacer s'))" for g
      unfolding isf' using that d(6)[of g] r(5) s'(5) by blast
    show "0 \<le> pin_count (frame s' g)" if "is_frame s' g" for g
      using that fr[of g] d(7)[of g] unfolding isf' by (cases "g = f") simp_all
    show "g \<in> set (free_list s') \<or> is_evictable (replacer s') g"
      if "is_frame s' g" "pin_count (frame s' g) = 0" for g
    proof (cases "g = f")
      case True
      then show ?thesis using s'(3) by simp
    next
      case False
      then show ?thesis using that fr[of g] d(8)[of g] r(3) s'(3,5) unfolding isf' by auto
    qed
    show "table_ok (page_table s')" unfolding s'(4) using d(9) by (rule table_ok_Remove(1))
    show "is_frame s' g \<and> page_id (frame s' g) = k \<and>
         0 < access_count (replacer s') g \<and> g \<notin> set (free_list s')"
      if "ExtendibleHashTable_Find hash_int (page_table s') k = Some g" for k g
    proof -
      have k: "k \<noteq> pid" and "ExtendibleHashTable_Find hash_int (page_table s) k = Some g"
        using that unfolding FF by (simp_all split: if_splits)
      note y = d(10)[OF this(2)]
      have "g \<noteq> f" using y x k by auto
      then show ?thesis using y fr[of g] r(4) s'(3,5) unfolding isf' by simp
    qed
  qed
  then show ?thesis using U by blast
qed

subsection \<open>A successful \<open>NewPgImp\<close> and a successful miss of \<open>FetchPgImp\<close>\<close>

lemma take_frame_cases:
  assumes inv: "bpm_inv s" and np: "\<not> every_frame_pinned s"
  shows "\<exists>f s1. take_frame s = (Some f, s1) \<and> frame_taken_inv s1 f \<and> is_frame s f \<and>
           pool_size s1 = pool_size s \<and> next_page_id s1 = next_page_id s \<and>
           (free_list s \<noteq> [] \<longrightarrow>
              f = last (free_list s) \<and> free_list s1 = butlast (free_list s) \<and>
              disk s1 = disk s \<and> pages s1 = pages s \<and> page_table s1 = page_table s \<and>
              replacer s1 = replacer s) \<and>
           (free_list s = [] \<longrightarrow>
              fst (LRUKReplacer_Evict (replacer s)) = Some f \<and> free_list s1 = [] \<and>
              pages s1 = (pages s)[nat f := (frame s f)\<lparr>is_dirty := False, data := 0\<rparr>] \<and>
              disk s1 = (if is_dirty (frame s f)
                         then (disk s)(page_id (frame s f) := data (frame s f)) else disk s) \<and>
              page_table s1 =
                snd (ExtendibleHashTable_Remove hash_int (page_table s) (page_id (frame s f))))"
proof (cases "free_list s = []")
  case False
  let ?f = "last (free_list s)"
  let ?s1 = "s\<lparr>free_list := butlast (free_list s)\<rparr>"
  note t = take_frame_free[OF inv False]
  have "is_frame ?s1 ?f" using t(2) by (rule frame_taken_invD(1))
  then have "is_frame s ?f" by (simp add: is_frame_def)
  then show ?thesis using t False by (intro exI[of _ ?f] exI[of _ ?s1]) simp
next
  case True
  from take_frame_evict[OF inv True np] obtain f s1 where
    t: "take_frame s = (Some f, s1)" "frame_taken_inv s1 f"
      "LRUKReplacer_Evict (replacer s) = (Some f, replacer s1)"
      "pool_size s1 = pool_size s" "next_page_id s1 = next_page_id s"
      "free_list s1 = []"
      "pages s1 = (pages s)[nat f := (frame s f)\<lparr>is_dirty := False, data := 0\<rparr>]"
      "disk s1 = (if is_dirty (frame s f)
                      then (disk s)(page_id (frame s f) := data (frame s f)) else disk s)"
      "page_table s1 =
             snd (ExtendibleHashTable_Remove hash_int (page_table s) (page_id (frame s f)))"
    by blast
  have "is_frame s1 f" using t(2) by (rule frame_taken_invD(1))
  then have "is_frame s f" using t(4) by (simp add: is_frame_def)
  then show ?thesis using t True by (intro exI[of _ f] exI[of _ s1]) simp
qed

lemma NewPgImp_success:
  assumes inv: "bpm_inv s" and cnt: "is_page_id (next_page_id s)"
    and np: "\<not> every_frame_pinned s"
  shows "\<exists>f s'. NewPgImp s = Inr (Some (next_page_id s, f), s') \<and> bpm_inv s' \<and>
           next_page_id s' = next_page_id s + 1 \<and> pool_size s' = pool_size s \<and>
           is_frame s f \<and> page_id (frame s' f) = next_page_id s \<and>
           pin_count (frame s' f) = 1 \<and> \<not> is_evictable (replacer s') f \<and>
           (\<forall>g. is_frame s g \<and> g \<noteq> f \<longrightarrow> frame s' g = frame s g) \<and>
           (free_list s \<noteq> [] \<longrightarrow>
              f = last (free_list s) \<and> free_list s' = butlast (free_list s) \<and>
              disk s' = disk s \<and>
              (\<forall>k. ExtendibleHashTable_Find hash_int (page_table s') k =
                     (if k = next_page_id s then Some f
                      else ExtendibleHashTable_Find hash_int (page_table s) k))) \<and>
           (free_list s = [] \<longrightarrow>
              fst (LRUKReplacer_Evict (replacer s)) = Some f \<and>
              disk s' = (if is_dirty (frame s f)
                         then (disk s)(page_id (frame s f) := data (frame s f)) else disk s) \<and>
              \<not> is_dirty (frame s' f) \<and> data (frame s' f) = 0 \<and>
              (\<forall>k. ExtendibleHashTable_Find hash_int (page_table s') k =
                     (if k = next_page_id s then Some f
                      else if k = page_id (frame s f) then None
                      else ExtendibleHashTable_Find hash_int (page_table s) k)))"
proof -
  note d = bpm_invD[OF inv]
  from take_frame_cases[OF inv np] obtain f s1 where
    t: "take_frame s = (Some f, s1)" "frame_taken_inv s1 f" "is_frame s f"
      "pool_size s1 = pool_size s" "next_page_id s1 = next_page_id s"
    and free: "free_list s \<noteq> [] \<Longrightarrow>
              f = last (free_list s) \<and> free_list s1 = butlast (free_list s) \<and>
              disk s1 = disk s \<and> pages s1 = pages s \<and> page_table s1 = page_table s \<and>
              replacer s1 = replacer s"
    and evict: "free_list s = [] \<Longrightarrow>
              fst (LRUKReplacer_Evict (replacer s)) = Some f \<and> free_list s1 = [] \<and>
              pages s1 = (pages s)[nat f := (frame s f)\<lparr>is_dirty := False, data := 0\<rparr>] \<and>
              disk s1 = (if is_dirty (frame s f)
                         then (disk s)(page_id (frame s f) := data (frame s f)) else disk s) \<and>
              page_table s1 =
                snd (ExtendibleHashTable_Remove hash_int (page_table s) (page_id (frame s f)))"
    by blast
  let ?p = "(frame s1 f)\<lparr>page_id := next_page_id s, pin_count := 1\<rparr>"
  from NewPgImp_step[OF np cnt t(1,2,5)] obtain s' where
    s': "NewPgImp s = Inr (Some (next_page_id s, f), s')" "bpm_inv s'"
      "pool_size s' = pool_size s1" "next_page_id s' = next_page_id s + 1"
      "pages s' = (pages s1)[nat f := ?p]"
      "free_list s' = free_list s1" "disk s' = disk s1"
      "\<And>k. ExtendibleHashTable_Find hash_int (page_table s') k =
                  (if k = next_page_id s then Some f
                   else ExtendibleHashTable_Find hash_int (page_table s1) k)"
      "is_evictable (replacer s') = (is_evictable (replacer s1))(f := False)"
    by blast
  have len1: "length (pages s1) = pool_size s1" using t(2) by (rule frame_taken_invD(2))
  have isf1: "is_frame s1 g = is_frame s g" for g using t(4) by (rule is_frame_cong)
  have fr': "frame s' g = (if g = f then ?p else frame s1 g)" if "is_frame s g" for g
    using s'(5) len1 using t(3) that unfolding isf1 [symmetric] by (rule frame_upd)
  have fr1: "frame s1 g = frame s g" if "is_frame s g" "g \<noteq> f" for g
  proof (cases "free_list s = []")
    case False
    then show ?thesis using free by (simp add: frame_def)
  next
    case True
    then have "pages s1 = (pages s)[nat f := (frame s f)\<lparr>is_dirty := False, data := 0\<rparr>]"
      using evict by simp
    from frame_upd[OF this d(1) t(3) that(1)] show ?thesis using that(2) by simp
  qed
  have 1: "\<forall>g. is_frame s g \<and> g \<noteq> f \<longrightarrow> frame s' g = frame s g"
    using fr' fr1 by simp
  have 2: "page_id (frame s' f) = next_page_id s" "pin_count (frame s' f) = 1"
    "is_dirty (frame s' f) = is_dirty (frame s1 f)" "data (frame s' f) = data (frame s1 f)"
    using fr'[OF t(3)] by simp_all
  have 3: "\<not> is_evictable (replacer s') f" using s'(9) by simp
  have 4: "f = last (free_list s) \<and> free_list s' = butlast (free_list s) \<and>
              disk s' = disk s \<and>
              (\<forall>k. ExtendibleHashTable_Find hash_int (page_table s') k =
                     (if k = next_page_id s then Some f
                      else ExtendibleHashTable_Find hash_int (page_table s) k))"
    if "free_list s \<noteq> []"
    using free[OF that] s'(6,7,8) by simp
  have 5: "fst (LRUKReplacer_Evict (replacer s)) = Some f \<and>
              disk s' = (if is_dirty (frame s f)
                         then (disk s)(page_id (frame s f) := data (frame s f)) else disk s) \<and>
              \<not> is_dirty (frame s' f) \<and> data (frame s' f) = 0 \<and>
              (\<forall>k. ExtendibleHashTable_Find hash_int (page_table s') k =
                     (if k = next_page_id s then Some f
                      else if k = page_id (frame s f) then None
                      else ExtendibleHashTable_Find hash_int (page_table s) k))"
    if e: "free_list s = []"
  proof -
    note ev = evict[OF e]
    have "pages s1 = (pages s)[nat f := (frame s f)\<lparr>is_dirty := False, data := 0\<rparr>]"
      using ev by simp
    from frame_upd[OF this d(1) t(3) t(3)]
    have f1: "frame s1 f = (frame s f)\<lparr>is_dirty := False, data := 0\<rparr>" by simp
    have F1: "ExtendibleHashTable_Find hash_int (page_table s1) k =
             (if k = page_id (frame s f) then None
              else ExtendibleHashTable_Find hash_int (page_table s) k)" for k
      using ev table_ok_Remove(2)[OF d(9)] by simp
    show ?thesis using ev 2(3,4) f1 s'(7) unfolding s'(8) F1 by simp
  qed
  show ?thesis
    using s'(1,2,4) s'(3)[unfolded t(4)] t(3) 2(1,2) 3 1 4 5
    by (intro exI[of _ f] exI[of _ s']) blast
qed

lemma FetchPgImp_miss_success:
  assumes inv: "bpm_inv s" and cnt: "is_page_id pid"
    and miss: "ExtendibleHashTable_Find hash_int (page_table s) pid = None"
    and np: "\<not> every_frame_pinned s"
  shows "\<exists>f s'. FetchPgImp s pid = Inr (Some f, s') \<and> bpm_inv s' \<and>
           next_page_id s' = next_page_id s \<and> pool_size s' = pool_size s \<and>
           is_frame s f \<and> page_id (frame s' f) = pid \<and>
           pin_count (frame s' f) = 1 \<and> \<not> is_evictable (replacer s') f \<and>
           data (frame s' f) = disk s' pid \<and>
           (\<forall>g. is_frame s g \<and> g \<noteq> f \<longrightarrow> frame s' g = frame s g) \<and>
           (free_list s \<noteq> [] \<longrightarrow>
              f = last (free_list s) \<and> free_list s' = butlast (free_list s) \<and>
              disk s' = disk s \<and>
              (\<forall>k. ExtendibleHashTable_Find hash_int (page_table s') k =
                     (if k = pid then Some f
                      else ExtendibleHashTable_Find hash_int (page_table s) k))) \<and>
           (free_list s = [] \<longrightarrow>
              fst (LRUKReplacer_Evict (replacer s)) = Some f \<and>
              disk s' = (if is_dirty (frame s f)
                         then (disk s)(page_id (frame s f) := data (frame s f)) else disk s) \<and>
              \<not> is_dirty (frame s' f) \<and>
              (\<forall>k. ExtendibleHashTable_Find hash_int (page_table s') k =
                     (if k = pid then Some f
                      else if k = page_id (frame s f) then None
                      else ExtendibleHashTable_Find hash_int (page_table s) k)))"
proof -
  note d = bpm_invD[OF inv]
  from take_frame_cases[OF inv np] obtain f s1 where
    t: "take_frame s = (Some f, s1)" "frame_taken_inv s1 f" "is_frame s f"
      "pool_size s1 = pool_size s" "next_page_id s1 = next_page_id s"
    and free: "free_list s \<noteq> [] \<Longrightarrow>
              f = last (free_list s) \<and> free_list s1 = butlast (free_list s) \<and>
              disk s1 = disk s \<and> pages s1 = pages s \<and> page_table s1 = page_table s \<and>
              replacer s1 = replacer s"
    and evict: "free_list s = [] \<Longrightarrow>
              fst (LRUKReplacer_Evict (replacer s)) = Some f \<and> free_list s1 = [] \<and>
              pages s1 = (pages s)[nat f := (frame s f)\<lparr>is_dirty := False, data := 0\<rparr>] \<and>
              disk s1 = (if is_dirty (frame s f)
                         then (disk s)(page_id (frame s f) := data (frame s f)) else disk s) \<and>
              page_table s1 =
                snd (ExtendibleHashTable_Remove hash_int (page_table s) (page_id (frame s f)))"
    by blast
  let ?p = "(frame s1 f)\<lparr>page_id := pid, pin_count := 1, data := disk s1 pid\<rparr>"
  from FetchPgImp_miss_step[OF miss np cnt t(1,2)] obtain s' where
    s': "FetchPgImp s pid = Inr (Some f, s')" "bpm_inv s'"
      "pool_size s' = pool_size s1" "next_page_id s' = next_page_id s1"
      "pages s' = (pages s1)[nat f := ?p]"
      "free_list s' = free_list s1" "disk s' = disk s1"
      "\<And>k. ExtendibleHashTable_Find hash_int (page_table s') k =
                  (if k = pid then Some f
                   else ExtendibleHashTable_Find hash_int (page_table s1) k)"
      "is_evictable (replacer s') = (is_evictable (replacer s1))(f := False)"
    by blast
  have len1: "length (pages s1) = pool_size s1" using t(2) by (rule frame_taken_invD(2))
  have isf1: "is_frame s1 g = is_frame s g" for g using t(4) by (rule is_frame_cong)
  have fr': "frame s' g = (if g = f then ?p else frame s1 g)" if "is_frame s g" for g
    using s'(5) len1 using t(3) that unfolding isf1 [symmetric] by (rule frame_upd)
  have fr1: "frame s1 g = frame s g" if "is_frame s g" "g \<noteq> f" for g
  proof (cases "free_list s = []")
    case False
    then show ?thesis using free by (simp add: frame_def)
  next
    case True
    then have "pages s1 = (pages s)[nat f := (frame s f)\<lparr>is_dirty := False, data := 0\<rparr>]"
      using evict by simp
    from frame_upd[OF this d(1) t(3) that(1)] show ?thesis using that(2) by simp
  qed
  have 1: "\<forall>g. is_frame s g \<and> g \<noteq> f \<longrightarrow> frame s' g = frame s g"
    using fr' fr1 by simp
  have 2: "page_id (frame s' f) = pid" "pin_count (frame s' f) = 1"
    "is_dirty (frame s' f) = is_dirty (frame s1 f)" "data (frame s' f) = disk s' pid"
    using fr'[OF t(3)] s'(7) by simp_all
  have 3: "\<not> is_evictable (replacer s') f" using s'(9) by simp
  have 4: "f = last (free_list s) \<and> free_list s' = butlast (free_list s) \<and>
              disk s' = disk s \<and>
              (\<forall>k. ExtendibleHashTable_Find hash_int (page_table s') k =
                     (if k = pid then Some f
                      else ExtendibleHashTable_Find hash_int (page_table s) k))"
    if "free_list s \<noteq> []"
    using free[OF that] s'(6,7,8) by simp
  have 5: "fst (LRUKReplacer_Evict (replacer s)) = Some f \<and>
              disk s' = (if is_dirty (frame s f)
                         then (disk s)(page_id (frame s f) := data (frame s f)) else disk s) \<and>
              \<not> is_dirty (frame s' f) \<and>
              (\<forall>k. ExtendibleHashTable_Find hash_int (page_table s') k =
                     (if k = pid then Some f
                      else if k = page_id (frame s f) then None
                      else ExtendibleHashTable_Find hash_int (page_table s) k))"
    if e: "free_list s = []"
  proof -
    note ev = evict[OF e]
    have "pages s1 = (pages s)[nat f := (frame s f)\<lparr>is_dirty := False, data := 0\<rparr>]"
      using ev by simp
    from frame_upd[OF this d(1) t(3) t(3)]
    have f1: "frame s1 f = (frame s f)\<lparr>is_dirty := False, data := 0\<rparr>" by simp
    have F1: "ExtendibleHashTable_Find hash_int (page_table s1) k =
             (if k = page_id (frame s f) then None
              else ExtendibleHashTable_Find hash_int (page_table s) k)" for k
      using ev table_ok_Remove(2)[OF d(9)] by simp
    show ?thesis using ev 2(3) f1 s'(7) unfolding s'(8) F1 by simp
  qed
  show ?thesis
    using s'(1,2) s'(4)[unfolded t(5)] s'(3)[unfolded t(4)] t(3) 2(1,2,4) 3 1 4 5
    by (intro exI[of _ f] exI[of _ s']) blast
qed

subsection \<open>Every operation keeps the invariant\<close>

lemma NewPgImp_inv:
  assumes inv: "bpm_inv s" and cnt: "is_page_id (next_page_id s)"
  shows "\<exists>res s'. NewPgImp s = Inr (res, s') \<and> bpm_inv s' \<and>
           next_page_id s \<le> next_page_id s' \<and> next_page_id s' \<le> next_page_id s + 1"
proof (cases "every_frame_pinned s")
  case True
  then have "NewPgImp s = Inr (None, s)" by (simp add: NewPgImp_def)
  then show ?thesis using inv by simp
next
  case False
  from NewPgImp_success[OF inv cnt False] obtain f s' where
    "NewPgImp s = Inr (Some (next_page_id s, f), s')" "bpm_inv s'"
    "next_page_id s' = next_page_id s + 1" by blast
  then show ?thesis by simp
qed

lemma FetchPgImp_inv:
  assumes inv: "bpm_inv s" and pid: "is_page_id pid"
  shows "\<exists>res s'. FetchPgImp s pid = Inr (res, s') \<and> bpm_inv s' \<and>
           next_page_id s' = next_page_id s"
proof (cases "ExtendibleHashTable_Find hash_int (page_table s) pid")
  case (Some f)
  from FetchPgImp_hit_step[OF inv Some] show ?thesis by blast
next
  case None
  show ?thesis
  proof (cases "every_frame_pinned s")
    case True
    then have "FetchPgImp s pid = Inr (None, s)" using None by (simp add: FetchPgImp_def)
    then show ?thesis using inv by simp
  next
    case False
    from FetchPgImp_miss_success[OF inv pid None False] show ?thesis by blast
  qed
qed

lemma UnpinPgImp_inv:
  assumes inv: "bpm_inv s"
  shows "\<exists>b s'. UnpinPgImp s pid dirty = Inr (b, s') \<and> bpm_inv s' \<and>
           next_page_id s' = next_page_id s"
proof (cases "\<exists>f. ExtendibleHashTable_Find hash_int (page_table s) pid = Some f \<and>
                 pid \<noteq> INVALID_PAGE_ID \<and> 0 < pin_count (frame s f)")
  case False
  then have "UnpinPgImp s pid dirty = Inr (False, s)" by (rule UnpinPgImp_fail)
  then show ?thesis using inv by blast
next
  case True
  then obtain f where "ExtendibleHashTable_Find hash_int (page_table s) pid = Some f"
    "pid \<noteq> INVALID_PAGE_ID" "0 < pin_count (frame s f)" by blast
  from UnpinPgImp_step[OF inv this, of dirty] show ?thesis by blast
qed

lemma scenario_S3_inv:
  "\<exists>s. scenario_S3 = Inr s \<and> bpm_inv s \<and> is_page_id (next_page_id s)"
proof -
  let ?s0 = "BufferPoolManagerInstance_new 2 2 2 (\<lambda>_. 5) :: nat BufferPoolManagerInstance"
  have i0: "bpm_inv ?s0" by (rule new_bpm_inv) simp
  have n0: "next_page_id ?s0 = 0" by (simp add: BufferPoolManagerInstance_new_def)
  have pg: "is_page_id n" if "0 \<le> n" "n \<le> 3" for n
    using that by (simp add: is_page_id_def)
  from NewPgImp_inv[OF i0] n0 pg[of 0] obtain r1 s1 where
    1: "NewPgImp ?s0 = Inr (r1, s1)" "bpm_inv s1" "0 \<le> next_page_id s1" "next_page_id s1 \<le> 1"
    by auto
  from NewPgImp_inv[OF 1(2)] pg[of "next_page_id s1"] 1(3,4) obtain r2 s2 where
    2: "NewPgImp s1 = Inr (r2, s2)" "bpm_inv s2" "0 \<le> next_page_id s2" "next_page_id s2 \<le> 2"
    by auto
  from NewPgImp_inv[OF 2(2)] pg[of "next_page_id s2"] 2(3,4) obtain r3 s3 where
    3: "NewPgImp s2 = Inr (r3, s3)" "bpm_inv s3" "0 \<le> next_page_id s3" "next_page_id s3 \<le> 3"
    by auto
  from UnpinPgImp_inv[OF 3(2), of 0 True] obtain b4 s4 where
    4: "UnpinPgImp s3 0 True = Inr (b4, s4)" "bpm_inv s4" "next_page_id s4 = next_page_id s3"
    by auto
  have "scenario_S3 = Inr s4" by (simp add: scenario_S3_def 1(1) 2(1) 3(1) 4(1))
  moreover have "is_page_id (next_page_id s4)" using pg[of "next_page_id s4"] 3(3,4) 4(3) by simp
  ultimately show ?thesis using 4(2) by blast
qed

lemma scenario_S3_state:
  "bpm_inv (projr scenario_S3)" "is_page_id (next_page_id (projr scenario_S3))"
proof -
  obtain s where s: "scenario_S3 = Inr s" "bpm_inv s" "is_page_id (next_page_id s)"
    using scenario_S3_inv by blast
  have p: "projr scenario_S3 = s" unfolding s(1) by simp
  show "bpm_inv (projr scenario_S3)" unfolding p by (rule s(2))
  show "is_page_id (next_page_id (projr scenario_S3))" unfolding p by (rule s(3))
qed

subsection \<open>The claims on the buffer pool manager\<close>

text \<open>
  Claim C3. In every pool state that satisfies the invariant, with the page-id counter
  in the 32-bit range: \<open>NewPgImp\<close> returns, and it returns no page exactly when every
  frame has pin count \<open>> 0\<close>, leaving the state unchanged; otherwise the page returned has
  the value of the counter as its page id, the counter has grown by one, the page has pin
  count 1, is not evictable, and the page table maps the new id to its frame. The frame
  is the back of the free list if the free list is not empty, and then disk and all
  other page-table entries are unchanged. Otherwise the frame is the one \<open>Evict\<close> of the
  replacer returns; the victim's buffer has been written to disk under its old page id if
  it was dirty, and only then; the dirty flag is clear, the buffer is zero, and the old
  page id is no longer in the page table. No other frame changes. \<open>FetchPgImp\<close> on a
  page id that is not in the page table does the same with the requested id in place
  of the counter; its frame ends up holding what the disk has for the page. In both, the
  frame-selection block on the eviction path leaves the frame clean and zeroed.
\<close>

theorem NewPage_and_FetchPage_miss_path:
  assumes inv: "bpm_inv s" and cnt: "is_page_id (next_page_id s)"
    and pid: "is_page_id pid"
    and miss: "ExtendibleHashTable_Find hash_int (page_table s) pid = None"
  shows
    "(\<exists>res s'. NewPgImp s = Inr (res, s') \<and> bpm_inv s' \<and>
        ((res = None) = (\<forall>f. is_frame s f \<longrightarrow> 0 < pin_count (frame s f))) \<and>
        (res = None \<longrightarrow> s' = s) \<and>
        (\<forall>p f. res = Some (p, f) \<longrightarrow>
           p = next_page_id s \<and> next_page_id s' = next_page_id s + 1 \<and>
           is_frame s f \<and> page_id (frame s' f) = p \<and> pin_count (frame s' f) = 1 \<and>
           \<not> is_evictable (replacer s') f \<and>
           (\<forall>g. is_frame s g \<and> g \<noteq> f \<longrightarrow> frame s' g = frame s g) \<and>
           (free_list s \<noteq> [] \<longrightarrow>
              f = last (free_list s) \<and> free_list s' = butlast (free_list s) \<and>
              disk s' = disk s \<and>
              (\<forall>k. ExtendibleHashTable_Find hash_int (page_table s') k =
                     (if k = p then Some f
                      else ExtendibleHashTable_Find hash_int (page_table s) k))) \<and>
           (free_list s = [] \<longrightarrow>
              fst (LRUKReplacer_Evict (replacer s)) = Some f \<and>
              disk s' = (if is_dirty (frame s f)
                         then (disk s)(page_id (frame s f) := data (frame s f)) else disk s) \<and>
              \<not> is_dirty (frame s' f) \<and> data (frame s' f) = 0 \<and>
              (\<forall>k. ExtendibleHashTable_Find hash_int (page_table s') k =
                     (if k = p then Some f
                      else if k = page_id (frame s f) then None
                      else ExtendibleHashTable_Find hash_int (page_table s) k))))) \<and>
     (\<exists>res s'. FetchPgImp s pid = Inr (res, s') \<and> bpm_inv s' \<and>
        ((res = None) = (\<forall>f. is_frame s f \<longrightarrow> 0 < pin_count (frame s f))) \<and>
        (res = None \<longrightarrow> s' = s) \<and>
        (\<forall>f. res = Some f \<longrightarrow>
           next_page_id s' = next_page_id s \<and>
           is_frame s f \<and> page_id (frame s' f) = pid \<and> pin_count (frame s' f) = 1 \<and>
           \<not> is_evictable (replacer s') f \<and> data (frame s' f) = disk s' pid \<and>
           (\<forall>g. is_frame s g \<and> g \<noteq> f \<longrightarrow> frame s' g = frame s g) \<and>
           (free_list s \<noteq> [] \<longrightarrow>
              f = last (free_list s) \<and> free_list s' = butlast (free_list s) \<and>
              disk s' = disk s \<and>
              (\<forall>k. ExtendibleHashTable_Find hash_int (page_table s') k =
                     (if k = pid then Some f
                      else ExtendibleHashTable_Find hash_int (page_table s) k))) \<and>
           (free_list s = [] \<longrightarrow>
              fst (LRUKReplacer_Evict (replacer s)) = Some f \<and>
              disk s' = (if is_dirty (frame s f)
                         then (disk s)(page_id (frame s f) := data (frame s f)) else disk s) \<and>
              \<not> is_dirty (frame s' f) \<and>
              (\<forall>k. ExtendibleHashTable_Find hash_int (page_table s') k =
                     (if k = pid then Some f
                      else if k = page_id (frame s f) then None
                      else ExtendibleHashTable_Find hash_int (page_table s) k))))) \<and>
     (free_list s = [] \<and> (\<exists>f. is_frame s f \<and> pin_count (frame s f) = 0) \<longrightarrow>
        (\<exists>f. fst (take_frame s) = Some f \<and>
              fst (LRUKReplacer_Evict (replacer s)) = Some f \<and>
              \<not> is_dirty (frame (snd (take_frame s)) f) \<and>
              data (frame (snd (take_frame s)) f) = 0))"
proof -
  note d = bpm_invD[OF inv]
  have pinned: "every_frame_pinned s = (\<forall>f. is_frame s f \<longrightarrow> 0 < pin_count (frame s f))"
  proof -
    have "(pin_count (frame s f) \<noteq> 0) = (0 < pin_count (frame s f))" if "is_frame s f" for f
      using d(7)[OF that] by linarith
    then show ?thesis unfolding every_frame_pinned_iff[OF d(1)] by blast
  qed
  have A: "\<exists>res s'. NewPgImp s = Inr (res, s') \<and> bpm_inv s' \<and>
        ((res = None) = (\<forall>f. is_frame s f \<longrightarrow> 0 < pin_count (frame s f))) \<and>
        (res = None \<longrightarrow> s' = s) \<and>
        (\<forall>p f. res = Some (p, f) \<longrightarrow>
           p = next_page_id s \<and> next_page_id s' = next_page_id s + 1 \<and>
           is_frame s f \<and> page_id (frame s' f) = p \<and> pin_count (frame s' f) = 1 \<and>
           \<not> is_evictable (replacer s') f \<and>
           (\<forall>g. is_frame s g \<and> g \<noteq> f \<longrightarrow> frame s' g = frame s g) \<and>
           (free_list s \<noteq> [] \<longrightarrow>
              f = last (free_list s) \<and> free_list s' = butlast (free_list s) \<and>
              disk s' = disk s \<and>
              (\<forall>k. ExtendibleHashTable_Find hash_int (page_table s') k =
                     (if k = p then Some f
                      else ExtendibleHashTable_Find hash_int (page_table s) k))) \<and>
           (free_list s = [] \<longrightarrow>
              fst (LRUKReplacer_Evict (replacer s)) = Some f \<and>
              disk s' = (if is_dirty (frame s f)
                         then (disk s)(page_id (frame s f) := data (frame s f)) else disk s) \<and>
              \<not> is_dirty (frame s' f) \<and> data (frame s' f) = 0 \<and>
              (\<forall>k. ExtendibleHashTable_Find hash_int (page_table s') k =
                     (if k = p then Some f
                      else if k = page_id (frame s f) then None
                      else ExtendibleHashTable_Find hash_int (page_table s) k))))"
  proof (cases "every_frame_pinned s")
    case True
    then have "NewPgImp s = Inr (None, s)" by (simp add: NewPgImp_def)
    then show ?thesis using inv True unfolding pinned by (intro exI[of _ None] exI[of _ s]) simp
  next
    case False
    from NewPgImp_success[OF inv cnt False] obtain f s' where
      N: "NewPgImp s = Inr (Some (next_page_id s, f), s')" and
      rest: "bpm_inv s' \<and>
           next_page_id s' = next_page_id s + 1 \<and> pool_size s' = pool_size s \<and>
           is_frame s f \<and> page_id (frame s' f) = next_page_id s \<and>
           pin_count (frame s' f) = 1 \<and> \<not> is_evictable (replacer s') f \<and>
           (\<forall>g. is_frame s g \<and> g \<noteq> f \<longrightarrow> frame s' g = frame s g) \<and>
           (free_list s \<noteq> [] \<longrightarrow>
              f = last (free_list s) \<and> free_list s' = butlast (free_list s) \<and>
              disk s' = disk s \<and>
              (\<forall>k. ExtendibleHashTable_Find hash_int (page_table s') k =
                     (if k = next_page_id s then Some f
                      else ExtendibleHashTable_Find hash_int (page_table s) k))) \<and>
           (free_list s = [] \<longrightarrow>
              fst (LRUKReplacer_Evict (replacer s)) = Some f \<and>
              disk s' = (if is_dirty (frame s f)
                         then (disk s)(page_id (frame s f) := data (frame s f)) else disk s) \<and>
              \<not> is_dirty (frame s' f) \<and> data (frame s' f) = 0 \<and>
              (\<forall>k. ExtendibleHashTable_Find hash_int (page_table s') k =
                     (if k = next_page_id s then Some f
                      else if k = page_id (frame s f) then None
                      else ExtendibleHashTable_Find hash_int (page_table s) k)))"
      by blast
    show ?thesis
      using N rest False unfolding pinned
      by (intro exI[of _ "Some (next_page_id s, f)"] exI[of _ s']) simp
  qed
  have B: "\<exists>res s'. FetchPgImp s pid = Inr (res, s') \<and> bpm_inv s' \<and>
        ((res = None) = (\<forall>f. is_frame s f \<longrightarrow> 0 < pin_count (frame s f))) \<and>
        (res = None \<longrightarrow> s' = s) \<and>
        (\<forall>f. res = Some f \<longrightarrow>
           next_page_id s' = next_page_id s \<and>
           is_frame s f \<and> page_id (frame s' f) = pid \<and> pin_count (frame s' f) = 1 \<and>
           \<not> is_evictable (replacer s') f \<and> data (frame s' f) = disk s' pid \<and>
           (\<forall>g. is_frame s g \<and> g \<noteq> f \<longrightarrow> frame s' g = frame s g) \<and>
           (free_list s \<noteq> [] \<longrightarrow>
              f = last (free_list s) \<and> free_list s' = butlast (free_list s) \<and>
              disk s' = disk s \<and>
              (\<forall>k. ExtendibleHashTable_Find hash_int (page_table s') k =
                     (if k = pid then Some f
                      else ExtendibleHashTable_Find hash_int (page_table s) k))) \<and>
           (free_list s = [] \<longrightarrow>
              fst (LRUKReplacer_Evict (replacer s)) = Some f \<and>
              disk s' = (if is_dirty (frame s f)
                         then (disk s)(page_id (frame s f) := data (frame s f)) else disk s) \<and>
              \<not> is_dirty (frame s' f) \<and>
              (\<forall>k. ExtendibleHashTable_Find hash_int (page_table s') k =
                     (if k = pid then Some f
                      else if k = page_id (frame s f) then None
                      else ExtendibleHashTable_Find hash_int (page_table s) k))))"
  proof (cases "every_frame_pinned s")
    case True
    then have "FetchPgImp s pid = Inr (None, s)" using miss by (simp add: FetchPgImp_def)
    then show ?thesis using inv True unfolding pinned by (intro exI[of _ None] exI[of _ s]) simp
  next
    case False
    from FetchPgImp_miss_success[OF inv pid miss False] obtain f s' where
      N: "FetchPgImp s pid = Inr (Some f, s')" and
      rest: "bpm_inv s' \<and>
           next_page_id s' = next_page_id s \<and> pool_size s' = pool_size s \<and>
           is_frame s f \<and> page_id (frame s' f) = pid \<and>
           pin_count (frame s' f) = 1 \<and> \<not> is_evictable (replacer s') f \<and>
           data (frame s' f) = disk s' pid \<and>
           (\<forall>g. is_frame s g \<and> g \<noteq> f \<longrightarrow> frame s' g = frame s g) \<and>
           (free_list s \<noteq> [] \<longrightarrow>
              f = last (free_list s) \<and> free_list s' = butlast (free_list s) \<and>
              disk s' = disk s \<and>
              (\<forall>k. ExtendibleHashTable_Find hash_int (page_table s') k =
                     (if k = pid then Some f
                      else ExtendibleHashTable_Find hash_int (page_table s) k))) \<and>
           (free_list s = [] \<longrightarrow>
              fst (LRUKReplacer_Evict (replacer s)) = Some f \<and>
              disk s' = (if is_dirty (frame s f)
                         then (disk s)(page_id (frame s f) := data (frame s f)) else disk s) \<and>
              \<not> is_dirty (frame s' f) \<and>
              (\<forall>k. ExtendibleHashTable_Find hash_int (page_table s') k =
                     (if k = pid then Some f
                      else if k = page_id (frame s f) then None
                      else ExtendibleHashTable_Find hash_int (page_table s) k)))"
      by blast
    show ?thesis
      using N rest False unfolding pinned
      by (intro exI[of _ "Some f"] exI[of _ s']) simp
  qed
  have C: "\<exists>f. fst (take_frame s) = Some f \<and>
              fst (LRUKReplacer_Evict (replacer s)) = Some f \<and>
              \<not> is_dirty (frame (snd (take_frame s)) f) \<and>
              data (frame (snd (take_frame s)) f) = 0"
    if e: "free_list s = []" and z: "\<exists>f. is_frame s f \<and> pin_count (frame s f) = 0"
  proof -
    have np: "\<not> every_frame_pinned s" unfolding pinned using z by auto
    from take_frame_cases[OF inv np] e obtain f s1 where
      t: "take_frame s = (Some f, s1)" "is_frame s f"
        "fst (LRUKReplacer_Evict (replacer s)) = Some f"
        "pages s1 = (pages s)[nat f := (frame s f)\<lparr>is_dirty := False, data := 0\<rparr>]"
      by blast
    from frame_upd[OF t(4) d(1) t(2) t(2)]
    have "frame s1 f = (frame s f)\<lparr>is_dirty := False, data := 0\<rparr>" by simp
    then show ?thesis using t(1,3) by simp
  qed
  from A B C show ?thesis by blast
qed

theorem NewPage_and_FetchPage_miss_path_witness:
  "bpm_inv (projr scenario_S3) \<and> is_page_id (next_page_id (projr scenario_S3)) \<and>
   is_page_id 7 \<and>
   ExtendibleHashTable_Find hash_int (page_table (projr scenario_S3)) 7 = None \<and>
   free_list (projr scenario_S3) = [] \<and>
   pin_count (frame (projr scenario_S3) 0) = 1 \<and>
   pin_count (frame (projr scenario_S3) 1) = 0 \<and>
   is_dirty (frame (projr scenario_S3) 1) \<and> page_id (frame (projr scenario_S3) 1) = 0 \<and>
   disk (projr scenario_S3) 0 = 5 \<and>
   fst (projr (NewPgImp (projr scenario_S3))) = Some (2, 1) \<and>
   disk (snd (projr (NewPgImp (projr scenario_S3)))) 0 = 0 \<and>
   bpm_inv (snd (projr (NewPgImp (projr scenario_S3)))) \<and>
   fst (projr (FetchPgImp (projr scenario_S3) 7)) = Some 1 \<and>
   data (frame (snd (projr (FetchPgImp (projr scenario_S3) 7))) 1) = 5 \<and>
   bpm_inv (snd (projr (FetchPgImp (projr scenario_S3) 7)))"
proof -
  have pid: "is_page_id 7" by (simp add: is_page_id_def)
  have v: "ExtendibleHashTable_Find hash_int (page_table (projr scenario_S3)) 7 = None"
    "free_list (projr scenario_S3) = []"
    "pin_count (frame (projr scenario_S3) 0) = 1"
    "pin_count (frame (projr scenario_S3) 1) = 0"
    "is_dirty (frame (projr scenario_S3) 1)" "page_id (frame (projr scenario_S3) 1) = 0"
    "disk (projr scenario_S3) 0 = 5"
    "fst (projr (NewPgImp (projr scenario_S3))) = Some (2, 1)"
    "disk (snd (projr (NewPgImp (projr scenario_S3)))) 0 = 0"
    "fst (projr (FetchPgImp (projr scenario_S3) 7)) = Some 1"
    "data (frame (snd (projr (FetchPgImp (projr scenario_S3) 7))) 1) = 5"
    unfolding scenario_S3_def by code_simp+
  note T = NewPage_and_FetchPage_miss_path[OF scenario_S3_state pid v(1)]
  have a: "bpm_inv (snd (projr (NewPgImp (projr scenario_S3))))"
    using T[THEN conjunct1] by (elim exE conjE) (simp only: sum.sel snd_conv)
  have b: "bpm_inv (snd (projr (FetchPgImp (projr scenario_S3) 7)))"
    using T[THEN conjunct2, THEN conjunct1] by (elim exE conjE) (simp only: sum.sel snd_conv)
  show ?thesis using scenario_S3_state pid v a b by simp
qed

text \<open>
  Claim C4. In every pool state that satisfies the invariant, \<open>UnpinPgImp\<close> returns;
  it returns true iff the page table has the page id, the id is not \<open>INVALID_PAGE_ID\<close>,
  and the page's pin count is \<open>> 0\<close>; when it returns false the state is unchanged, in
  particular for a page whose pin count is already 0. When it returns true the pin count
  has dropped by one, the dirty flag is the old flag or the argument, page id and buffer
  are unchanged, no other frame has changed, and the replacer is untouched unless the pin
  count has reached 0, in which case the frame is evictable and no other frame's
  evictable flag has changed.
\<close>

theorem UnpinPage_decrements_and_marks_evictable:
  assumes inv: "bpm_inv s"
  shows "\<exists>b s'. UnpinPgImp s pid dirty = Inr (b, s') \<and> bpm_inv s' \<and>
           (b = (\<exists>f. ExtendibleHashTable_Find hash_int (page_table s) pid = Some f \<and>
                      pid \<noteq> INVALID_PAGE_ID \<and> 0 < pin_count (frame s f))) \<and>
           (\<not> b \<longrightarrow> s' = s) \<and>
           (\<forall>f. b \<and> ExtendibleHashTable_Find hash_int (page_table s) pid = Some f \<longrightarrow>
              pin_count (frame s' f) = pin_count (frame s f) - 1 \<and>
              is_dirty (frame s' f) = (is_dirty (frame s f) \<or> dirty) \<and>
              page_id (frame s' f) = page_id (frame s f) \<and>
              data (frame s' f) = data (frame s f) \<and>
              (\<forall>g. is_frame s g \<and> g \<noteq> f \<longrightarrow> frame s' g = frame s g) \<and>
              (pin_count (frame s' f) \<noteq> 0 \<longrightarrow> replacer s' = replacer s) \<and>
              (pin_count (frame s' f) = 0 \<longrightarrow>
                 is_evictable (replacer s') f \<and>
                 (\<forall>g. g \<noteq> f \<longrightarrow>
                    is_evictable (replacer s') g = is_evictable (replacer s) g)) \<and>
              page_table s' = page_table s \<and> free_list s' = free_list s \<and>
              disk s' = disk s \<and> next_page_id s' = next_page_id s)"
proof (cases "\<exists>f. ExtendibleHashTable_Find hash_int (page_table s) pid = Some f \<and>
                 pid \<noteq> INVALID_PAGE_ID \<and> 0 < pin_count (frame s f)")
  case False
  then have "UnpinPgImp s pid dirty = Inr (False, s)" by (rule UnpinPgImp_fail)
  then show ?thesis using inv False by (intro exI[of _ False] exI[of _ s]) simp
next
  case True
  then obtain f where F: "ExtendibleHashTable_Find hash_int (page_table s) pid = Some f"
    and pid: "pid \<noteq> INVALID_PAGE_ID" and pin: "0 < pin_count (frame s f)" by blast
  note d = bpm_invD[OF inv]
  have isf: "is_frame s f" using d(10)[OF F] by simp
  from UnpinPgImp_step[OF inv F pid pin, of dirty] obtain s' p where
    U: "UnpinPgImp s pid dirty = Inr (True, s')" and i': "bpm_inv s'"
    and pg: "pages s' = (pages s)[nat f := p]"
    and p: "pin_count p = pin_count (frame s f) - 1"
      "is_dirty p = (is_dirty (frame s f) \<or> dirty)"
      "page_id p = page_id (frame s f)" "data p = data (frame s f)"
    and same: "page_table s' = page_table s" "free_list s' = free_list s"
      "disk s' = disk s" "next_page_id s' = next_page_id s"
    and ev: "is_evictable (replacer s') =
             (if pin_count (frame s f) = 1 then (is_evictable (replacer s))(f := True)
              else is_evictable (replacer s))"
    and rp: "pin_count (frame s f) \<noteq> 1 \<longrightarrow> replacer s' = replacer s"
    by blast
  have fr: "frame s' g = (if g = f then p else frame s g)" if "is_frame s g" for g
    using pg d(1) isf that by (rule frame_upd)
  have 1: "frame s' f = p" using fr[OF isf] by simp
  have 2: "\<forall>g. is_frame s g \<and> g \<noteq> f \<longrightarrow> frame s' g = frame s g" using fr by simp
  have 3: "pin_count (frame s' f) \<noteq> 0 \<longrightarrow> replacer s' = replacer s"
    using rp p(1) unfolding 1 by simp
  have 4: "pin_count (frame s' f) = 0 \<longrightarrow>
                 is_evictable (replacer s') f \<and>
                 (\<forall>g. g \<noteq> f \<longrightarrow>
                    is_evictable (replacer s') g = is_evictable (replacer s) g)"
    using ev p(1) unfolding 1 by simp
  have 5: "pin_count (frame s' f) = pin_count (frame s f) - 1 \<and>
              is_dirty (frame s' f) = (is_dirty (frame s f) \<or> dirty) \<and>
              page_id (frame s' f) = page_id (frame s f) \<and>
              data (frame s' f) = data (frame s f)"
    unfolding 1 using p by simp
  show ?thesis
    using U i' True F 2 3 4 5 same
    by (intro exI[of _ True] exI[of _ s']) simp
qed

theorem UnpinPage_decrements_and_marks_evictable_witness:
  "bpm_inv (projr scenario_S3) \<and>
   ExtendibleHashTable_Find hash_int (page_table (projr scenario_S3)) 1 = Some 0 \<and>
   pin_count (frame (projr scenario_S3) 0) = 1 \<and>
   \<not> is_dirty (frame (projr scenario_S3) 0) \<and>
   \<not> is_evictable (replacer (projr scenario_S3)) 0 \<and>
   fst (projr (UnpinPgImp (projr scenario_S3) 1 True)) \<and>
   pin_count (frame (snd (projr (UnpinPgImp (projr scenario_S3) 1 True))) 0) = 0 \<and>
   is_dirty (frame (snd (projr (UnpinPgImp (projr scenario_S3) 1 True))) 0) \<and>
   is_evictable (replacer (snd (projr (UnpinPgImp (projr scenario_S3) 1 True)))) 0 \<and>
   bpm_inv (snd (projr (UnpinPgImp (projr scenario_S3) 1 True))) \<and>
   ExtendibleHashTable_Find hash_int (page_table (projr scenario_S3)) 0 = Some 1 \<and>
   pin_count (frame (projr scenario_S3) 1) = 0 \<and>
   \<not> fst (projr (UnpinPgImp (projr scenario_S3) 0 True))"
proof -
  have v: "ExtendibleHashTable_Find hash_int (page_table (projr scenario_S3)) 1 = Some 0"
    "pin_count (frame (projr scenario_S3) 0) = 1"
    "\<not> is_dirty (frame (projr scenario_S3) 0)"
    "\<not> is_evictable (replacer (projr scenario_S3)) 0"
    "fst (projr (UnpinPgImp (projr scenario_S3) 1 True))"
    "pin_count (frame (snd (projr (UnpinPgImp (projr scenario_S3) 1 True))) 0) = 0"
    "is_dirty (frame (snd (projr (UnpinPgImp (projr scenario_S3) 1 True))) 0)"
    "is_evictable (replacer (snd (projr (UnpinPgImp (projr scenario_S3) 1 True)))) 0"
    "ExtendibleHashTable_Find hash_int (page_table (projr scenario_S3)) 0 = Some 1"
    "pin_count (frame (projr scenario_S3) 1) = 0"
    "\<not> fst (projr (UnpinPgImp (projr scenario_S3) 0 True))"
    unfolding scenario_S3_def by code_simp+
  have a: "bpm_inv (snd (projr (UnpinPgImp (projr scenario_S3) 1 True)))"
    using UnpinPage_decrements_and_marks_evictable[OF scenario_S3_state(1), of 1 True]
    by (elim exE conjE) (simp only: sum.sel snd_conv)
  show ?thesis using scenario_S3_state(1) v a by simp
qed

subsection \<open>\<open>DeleteEntry\<close> at the root\<close>

lemma pool_UnpinPage [simp]:
  "root_page_id (UnpinPage t p) = root_page_id t"
  "pool_pages (UnpinPage t p) = pool_pages t"
  "pool_pins (UnpinPage t p) q =
     (if q = p \<and> pool_pages t p \<noteq> None \<and> 0 < pool_pins t p then pool_pins t p - 1
      else pool_pins t q)"
  by (auto simp: UnpinPage_def)

lemma pool_DeletePage [simp]:
  "root_page_id (DeletePage t p) = root_page_id t"
  "pool_pins (DeletePage t p) = pool_pins t"
  "pool_pages (DeletePage t p) q =
     (if q = p \<and> pool_pins t p \<le> 0 then None else pool_pages t q)"
  by (auto simp: DeletePage_def)





subsection \<open>\<open>Remove\<close> of the last key\<close>





section \<open>B+-tree: the claims\<close>

text \<open>
  Claim C1 (as stated) asks, for \<open>leaf_max_size = 3\<close> and \<open>internal_max_size = 3\<close> and the
  inserts of 1, 2, 3, 4, 5, for a root with the separator 3 over the two leaves
  \<open>[1, 2]\<close> and \<open>[3, 4, 5]\<close>. \<open>Insert\<close> splits a leaf as soon as its size reaches
  \<open>leaf_max_size\<close>, and \<open>Split\<close> keeps \<open>size / 2\<close> pairs in the left leaf, so no leaf of
  the tree holds three keys and the left leaf of a split of three holds one.
\<close>

theorem insert_1_to_5_counterexample:
  "map_option BPlusTree_shape scenario_S5 \<noteq> Some (Node [3] [Leaf [1, 2], Leaf [3, 4, 5]])"
  unfolding scenario_S5_def tree_3_3_def by code_simp

text \<open>
  Claim C1, amended. After the inserts of 1, 2, 3, 4, 5 the root is an internal page
  with the separator 3 and two children; the children are internal pages with the
  separators 2 and 4, over the leaves \<open>[1]\<close>, \<open>[2]\<close> and \<open>[3]\<close>, \<open>[4, 5]\<close>; the sibling
  chain from the leftmost leaf is \<open>[1]\<close>, \<open>[2]\<close>, \<open>[3]\<close>, \<open>[4, 5]\<close>; \<open>GetValue(4)\<close> returns
  true with the value inserted under 4, and \<open>GetValue(6)\<close> returns false.
\<close>

theorem insert_1_to_5:
  "map_option BPlusTree_shape scenario_S5 =
     Some (Node [3] [Node [2] [Leaf [1], Leaf [2]], Node [4] [Leaf [3], Leaf [4, 5]]]) \<and>
   map_option BPlusTree_leaves scenario_S5 = Some [[1], [2], [3], [4, 5]] \<and>
   lookup scenario_S5 4 = Some (True, [40]) \<and>
   lookup scenario_S5 6 = Some (False, [])"
  unfolding scenario_S5_def tree_3_3_def by code_simp




end
